theory Spec2Isabelle
  imports Main
begin

section \<open>Calendar dates (the part of moment the crawler uses)\<close>

text \<open>
  The crawler keeps its position as a string in the format \<open>YYYY-MM-DD\<close> and touches it
  only through moment: \<open>moment(s, 'YYYY-MM-DD')\<close>, \<open>subtract(1, 'week')\<close>,
  \<open>format('YYYY-MM-DD')\<close> and \<open>isAfter\<close>. A calendar date is a year, a month
  (1 to 12) and a day of the month, in the proleptic Gregorian calendar.
\<close>

record cal_date =
  year :: int
  month :: nat
  day :: nat

definition is_leap :: "int \<Rightarrow> bool" where
  "is_leap y = (y mod 4 = 0 \<and> (y mod 100 \<noteq> 0 \<or> y mod 400 = 0))"

definition days_in_month :: "int \<Rightarrow> nat \<Rightarrow> nat" where
  "days_in_month y m =
     (if m = 2 then (if is_leap y then 29 else 28)
      else if m = 4 \<or> m = 6 \<or> m = 9 \<or> m = 11 then 30 else 31)"

definition valid_date :: "cal_date \<Rightarrow> bool" where
  "valid_date d = (1 \<le> month d \<and> month d \<le> 12 \<and> 1 \<le> day d \<and> day d \<le> days_in_month (year d) (month d))"

text \<open>
  The number of a day, counted from the day before 1 January of year 0: the days of the
  years before, the days of the months before, and the day of the month. It is the scale on
  which "seven calendar days earlier" is measured; the crawler itself never computes it.
\<close>

definition days_before_year :: "int \<Rightarrow> int" where
  "days_before_year y = 365 * y + (y + 3) div 4 - (y + 99) div 100 + (y + 399) div 400"

definition days_before_month :: "int \<Rightarrow> nat \<Rightarrow> int" where
  "days_before_month y m = int (sum_list (map (days_in_month y) [1..<m]))"

definition day_number :: "cal_date \<Rightarrow> int" where
  "day_number d = days_before_year (year d) + days_before_month (year d) (month d) + int (day d)"

text \<open>The day after a day, as the calendar has it: the other yardstick for "seven days".\<close>

definition next_day :: "cal_date \<Rightarrow> cal_date" where
  "next_day d =
     (if day d < days_in_month (year d) (month d) then d\<lparr>day := day d + 1\<rparr>
      else if month d < 12 then d\<lparr>month := month d + 1, day := 1\<rparr>
      else d\<lparr>year := year d + 1, month := 1, day := 1\<rparr>)"

text \<open>
  \<open>subtract(1, 'week')\<close>: moment turns the week into seven days and sets the day of the
  month seven back, and the date normalises into the month (and the year) before when the
  day of the month runs out.
\<close>

definition subtract_week :: "cal_date \<Rightarrow> cal_date" where
  "subtract_week d =
     (if 7 < day d then d\<lparr>day := day d - 7\<rparr>
      else if 1 < month d then
        d\<lparr>month := month d - 1, day := day d + days_in_month (year d) (month d - 1) - 7\<rparr>
      else d\<lparr>year := year d - 1, month := 12, day := day d + 31 - 7\<rparr>)"

subsection \<open>Reading and writing \<open>YYYY-MM-DD\<close>\<close>

definition digit_char :: "nat \<Rightarrow> char" where
  "digit_char n = ''0123456789'' ! (n mod 10)"

definition is_digit :: "char \<Rightarrow> bool" where
  "is_digit c = (48 \<le> (of_char c :: nat) \<and> (of_char c :: nat) \<le> 57)"

definition digit_val :: "char \<Rightarrow> nat" where
  "digit_val c = of_char c - 48"

fun decimal :: "nat \<Rightarrow> string" where
  "decimal n = (if n < 10 then [digit_char n] else decimal (n div 10) @ [digit_char n])"

declare decimal.simps [simp del]

text \<open>moment's \<open>zeroFill\<close>: the sign when negative, then the digits padded with zeros.\<close>

definition zeroFill :: "int \<Rightarrow> nat \<Rightarrow> string" where
  "zeroFill n targetLength =
     (let absNumber = decimal (nat \<bar>n\<bar>)
      in (if 0 \<le> n then [] else ''-'') @ replicate (targetLength - length absNumber) CHR ''0'' @ absNumber)"

definition format_date :: "cal_date \<Rightarrow> string" where
  "format_date d =
     zeroFill (year d) 4 @ ''-'' @ zeroFill (int (month d)) 2 @ ''-'' @ zeroFill (int (day d)) 2"

definition digits_val :: "string \<Rightarrow> nat" where
  "digits_val s = foldl (\<lambda>a c. 10 * a + digit_val c) 0 s"

text \<open>
  \<open>moment(s, 'YYYY-MM-DD')\<close> on the strings the crawler produces: four digits, a dash, two
  digits, a dash, two digits, naming a day that exists. \<open>None\<close> is moment's invalid
  date. moment's forgiving reading of other spellings (a one-digit month, trailing text) is
  not modelled: such a string is invalid here, and every statement below about a date string
  is about one that parses.
\<close>

definition parse_date :: "string \<Rightarrow> cal_date option" where
  "parse_date s =
     (if length s = 10 \<and> s ! 4 = CHR ''-'' \<and> s ! 7 = CHR ''-''
         \<and> list_all is_digit (take 4 s) \<and> list_all is_digit (take 2 (drop 5 s))
         \<and> list_all is_digit (drop 8 s)
      then
        (let d = \<lparr>year = int (digits_val (take 4 s)), month = digits_val (take 2 (drop 5 s)),
                   day = digits_val (drop 8 s)\<rparr>
         in if valid_date d then Some d else None)
      else None)"

text \<open>\<open>getPreviousWeek\<close> of utils/time; an invalid moment formats as \<open>Invalid date\<close>.\<close>

definition getPreviousWeek :: "string \<Rightarrow> string" where
  "getPreviousWeek date =
     (case parse_date date of
        None \<Rightarrow> ''Invalid date''
      | Some d \<Rightarrow> format_date (subtract_week d))"

text \<open>
  The instant of a date, in milliseconds since 1 January 1970: midnight at the start of the
  day, the process running in UTC.
\<close>

definition valueOf :: "cal_date \<Rightarrow> int" where
  "valueOf d = (day_number d - day_number \<lparr>year = 1970, month = 1, day = 1\<rparr>) * 86400000"

text \<open>
  \<open>moment(stamp)\<close> on the time stamps the API sends, such as \<open>2008-05-11T04:37:31Z\<close>: the
  instant in milliseconds since 1970, and \<open>None\<close>, moment's invalid date, for a string of any
  other form.
\<close>

definition parse_stamp :: "string \<Rightarrow> int option" where
  "parse_stamp s =
     (if length s = 20 \<and> s ! 10 = CHR ''T'' \<and> s ! 13 = CHR '':'' \<and> s ! 16 = CHR '':''
         \<and> s ! 19 = CHR ''Z'' \<and> list_all is_digit (take 2 (drop 11 s))
         \<and> list_all is_digit (take 2 (drop 14 s)) \<and> list_all is_digit (take 2 (drop 17 s))
      then
        (case parse_date (take 10 s) of
           None \<Rightarrow> None
         | Some d \<Rightarrow>
             (let h = digits_val (take 2 (drop 11 s)); m = digits_val (take 2 (drop 14 s));
                  sec = digits_val (take 2 (drop 17 s))
              in if h < 24 \<and> m < 60 \<and> sec < 60
                 then Some (valueOf d + int ((h * 60 + m) * 60 + sec) * 1000)
                 else None))
      else None)"

text \<open>
  \<open>moment(date, 'YYYY-MM-DD').isAfter(stamp)\<close>: an invalid moment on either side is after
  nothing.
\<close>

definition isAfter :: "string \<Rightarrow> string \<Rightarrow> bool" where
  "isAfter date stamp =
     (case parse_date date of
        None \<Rightarrow> False
      | Some d \<Rightarrow> (case parse_stamp stamp of None \<Rightarrow> False | Some t \<Rightarrow> t < valueOf d))"

section \<open>The data of the remote API\<close>

text \<open>
  Modelled from the spec: the interfaces module (\<open>Organization\<close>, \<open>PublicUser\<close>,
  \<open>RepoWithEvents\<close>, \<open>ScrapingResult\<close>) is not among the sources, nor are the types
  of the API client; the records below carry the fields that
  \<open>Scraper.run\<close> reads and writes, under the names it uses. An optional or nullable field
  is an \<open>option\<close>, and a count is an \<open>int\<close>.
\<close>

record SearchItem =
  item_login :: string

record SearchResult =
  items :: "SearchItem list"
  total_count :: int

record PublicUser =
  login :: string
  id' :: int
  avatar_url :: string
  html_url :: string
  name :: "string option"
  company :: "string option"
  blog :: "string option"
  location :: "string option"
  email :: "string option"
  hireable :: "bool option"
  bio :: "string option"
  twitter_username :: "string option"
  public_repos :: int
  followers :: int
  following :: int
  created_at :: string
  updated_at :: string

record Repo =
  repo_name :: string
  stargazers_count :: "int option"
  watchers_count :: "int option"
  forks_count :: "int option"
  open_issues_count :: "int option"

record RepoWithEvents = Repo +
  last_90_days_events_count :: int

datatype Event = Event string

text \<open>
  The enriched entity: the identity fields of the profile under the names the crawler gives
  them, and the five totals. \<open>twitter_username ?? null\<close> maps an absent name to
  \<open>null\<close>, and both are \<open>None\<close>.
\<close>

record Organization =
  login :: string
  id' :: int
  avatarUrl :: string
  htmlUrl :: string
  name :: "string option"
  company :: "string option"
  blog :: "string option"
  location :: "string option"
  email :: "string option"
  hireable :: "bool option"
  bio :: "string option"
  twitterUsername :: "string option"
  publicRepos :: int
  followers :: int
  following :: int
  createdAt :: string
  updatedAt :: string
  totalRepoStars :: int
  totalRepoWatchers :: int
  totalRepoForks :: int
  totalRepoOpenIssues :: int
  totalRepoLast90DaysEvents :: int

record ScrapingResult =
  nextPageToScrape :: int
  searchingDate :: string
  organizations :: "Organization list"

section \<open>The world outside the process\<close>

text \<open>
  \<open>now\<close> is the clock that \<open>moment()\<close> reads, in milliseconds since 1970; \<open>calls\<close>
  counts the remote calls issued so far; \<open>written\<close> is the history of documents saved,
  each with the path it was saved under, the latest last. (Modelled from the spec: the
  module utils/json is not among the sources; \<open>saveJSONFile\<close> overwrites the whole
  document and does not fail, so the document on disk is the last of the history.) The clock moves only in
  \<open>wait\<close>: the time a remote call itself takes is not modelled, and a timer fires exactly
  when its delay has passed. Lines printed to the console are not part of the model.
\<close>

record env =
  now :: int
  calls :: nat
  written :: "(string \<times> ScrapingResult) list"

text \<open>\<open>wait\<close> of utils/time: a timer whose delay is not positive (or is NaN) fires at once.\<close>

definition wait :: "int \<Rightarrow> env \<Rightarrow> env" where
  "wait milliseconds e = e\<lparr>now := now e + max 0 milliseconds\<rparr>"

section \<open>Responses and errors\<close>

record 'd OctokitResponse =
  data :: 'd
  headers :: "string \<rightharpoonup> string"

text \<open>The JSON body of an error response, as far as the governor looks into it.\<close>

record Block =
  reason :: "string option"

record ErrorPayload =
  message :: "string option"
  block :: "Block option"

text \<open>
  Modelled from the spec: the error classes \<open>errors/RepoBlocked\<close> and
  \<open>errors/RateLimitError\<close> are not among the sources. A value thrown is
  \<^item> \<open>RequestError r\<close>: what the API client throws, with its \<open>response\<close> property
    (absent for a failure without a response, such as a network error); the response has
    headers, as its type says, and a body that may be absent;
  \<^item> \<open>RepoBlocked reason\<close>: the permanent-block error, carrying the reason it was made with;
  \<^item> \<open>RateLimitError reset\<close>: the error of the second governor, made with the reset header
    of a response that reports no quota left;
  \<^item> \<open>TypeError\<close>: what JavaScript throws on reading a property of \<open>undefined\<close>.
\<close>

datatype err =
    RequestError "ErrorPayload option OctokitResponse option"
  | RepoBlocked "string option"
  | RateLimitError "string option"
  | TypeError

text \<open>
  Modelled from the spec: an error of the rate-limit kind exposes the remaining quota and,
  when there is none, the reset instant in its metadata, which the governor reads as the
  headers of \<open>err.response\<close>. So a \<open>RateLimitError\<close> made with a reset value has a
  response without body, whose headers say that no quota remains and give that reset value.
\<close>

definition rate_limit_metadata :: "string option \<Rightarrow> ErrorPayload option OctokitResponse" where
  "rate_limit_metadata reset =
     \<lparr>data = None,
      headers = (\<lambda>h. if h = ''x-ratelimit-remaining'' then Some ''0''
                     else if h = ''x-ratelimit-reset'' then reset else None)\<rparr>"

text \<open>
  Modelled from the spec: \<open>err.response\<close>. The error of the API client has the response
  it was made with, a \<open>RateLimitError\<close> the metadata above; a \<open>RepoBlocked\<close> and a
  \<open>TypeError\<close> have no such property.
\<close>

fun response :: "err \<Rightarrow> ErrorPayload option OctokitResponse option" where
  "response (RequestError r) = r"
| "response (RepoBlocked _) = None"
| "response (RateLimitError reset) = Some (rate_limit_metadata reset)"
| "response TypeError = None"

text \<open>\<open>err instanceof RepoBlocked\<close>\<close>

fun instanceof_RepoBlocked :: "err \<Rightarrow> bool" where
  "instanceof_RepoBlocked (RepoBlocked _) = True"
| "instanceof_RepoBlocked _ = False"

text \<open>
  A remote call is a promise that resolves with a response or rejects with an error. Which
  of the two it does may depend on the world at the time of the call.
\<close>

datatype 'd outcome = Resolve "'d OctokitResponse" | Reject err

type_synonym 'd request = "env \<Rightarrow> 'd outcome"

definition called :: "env \<Rightarrow> env" where
  "called e = e\<lparr>calls := Suc (calls e)\<rparr>"

section \<open>The request governor\<close>

text \<open>\<open>err.response?.data?.message\<close>\<close>

definition err_message :: "err \<Rightarrow> string option" where
  "err_message e =
     (case response e of
        None \<Rightarrow> None
      | Some r \<Rightarrow> (case data r of None \<Rightarrow> None | Some d \<Rightarrow> message d))"

text \<open>\<open>err.response?.headers[h]\<close>\<close>

definition err_header :: "err \<Rightarrow> string \<Rightarrow> string option" where
  "err_header e h = (case response e of None \<Rightarrow> None | Some r \<Rightarrow> headers r h)"

text \<open>
  \<open>new RepoBlocked(err.response.data.block.reason)\<close>, evaluated once the message has
  matched: reading \<open>reason\<close> of an absent \<open>block\<close> throws a TypeError instead.
\<close>

definition new_RepoBlocked :: "err \<Rightarrow> err" where
  "new_RepoBlocked e =
     (case response e of
        None \<Rightarrow> TypeError
      | Some r \<Rightarrow>
          (case data r of
             None \<Rightarrow> TypeError
           | Some d \<Rightarrow> (case block d of None \<Rightarrow> TypeError | Some b \<Rightarrow> RepoBlocked (reason b))))"

text \<open>
  \<open>Number(h)\<close> on a header value: the number a string of decimal digits spells (0 for the
  empty string), and NaN, here \<open>None\<close>, for an absent header. GitHub sends the reset instant
  as decimal digits; other spellings of a number are not modelled and count as NaN.
\<close>

definition Number :: "string option \<Rightarrow> int option" where
  "Number h =
     (case h of
        None \<Rightarrow> None
      | Some s \<Rightarrow> (if list_all is_digit s then Some (int (digits_val s)) else None))"

text \<open>
  \<open>moment.unix(Number(h) + 1)\<close> as an instant in milliseconds, and
  \<open>resetMoment.diff(moment())\<close>, which is NaN for an invalid moment; \<open>wait(NaN)\<close> fires
  at once, like \<open>wait(0)\<close>.
\<close>

definition resetMoment :: "string option \<Rightarrow> int option" where
  "resetMoment h = (case Number h of None \<Rightarrow> None | Some n \<Rightarrow> Some ((n + 1) * 1000))"

definition diff :: "int option \<Rightarrow> env \<Rightarrow> int" where
  "diff m e = (case m of None \<Rightarrow> 0 | Some t \<Rightarrow> t - now e)"

text \<open>
  \<open>requestWrapper\<close> of utils/requestWrapper, the governor the crawler imports (it knows
  \<open>RepoBlocked\<close>). The \<open>try\<close> block awaits the call and returns its data; the
  \<open>catch\<close> block classifies the error. The function need not return: \<open>None\<close> is a call
  that retries for ever.
\<close>

partial_function (option) requestWrapper ::
  "'d request \<Rightarrow> int \<Rightarrow> env \<Rightarrow> ((err + 'd) \<times> env) option" where
  "requestWrapper request retries e =
     (case request e of
        Resolve r \<Rightarrow> Some (Inr (data r), called e)
      | Reject err \<Rightarrow>
          (if err_message err = Some ''Repository access blocked''
           then Some (Inl (new_RepoBlocked err), called e)
           else if err_header err ''x-ratelimit-remaining'' \<noteq> Some ''0''
           then (if retries \<noteq> 0 then requestWrapper request (retries - 1) (called e)
                 else Some (Inl err, called e))
           else requestWrapper request retries
                  (wait (diff (resetMoment (err_header err ''x-ratelimit-reset'')) (called e))
                     (called e))))"

declare requestWrapper.simps [code]

text \<open>
  The other \<open>requestWrapper\<close> among the sources (it knows \<open>RateLimitError\<close>, and no
  permanent block). Its \<open>try\<close> block throws when the response itself reports no quota
  left, and that error is caught by the function's own \<open>catch\<close> block. What the
  \<open>catch\<close> block then does depends on the error class, which is not among the sources:
  the function is first written for any way \<open>new_error\<close> of making the error from the
  reset header, and \<open>requestWrapper2\<close> is the function with the class as modelled above.
\<close>

definition try2 :: "(string option \<Rightarrow> err) \<Rightarrow> 'd outcome \<Rightarrow> err + 'd" where
  "try2 new_error out =
     (case out of
        Resolve r \<Rightarrow>
          (if headers r ''x-ratelimit-remaining'' = Some ''0''
           then Inl (new_error (headers r ''x-ratelimit-reset''))
           else Inr (data r))
      | Reject err \<Rightarrow> Inl err)"

partial_function (option) requestWrapper2_with ::
  "(string option \<Rightarrow> err) \<Rightarrow> 'd request \<Rightarrow> int \<Rightarrow> env \<Rightarrow> ((err + 'd) \<times> env) option" where
  "requestWrapper2_with new_error request retries e =
     (case try2 new_error (request e) of
        Inr d \<Rightarrow> Some (Inr d, called e)
      | Inl err \<Rightarrow>
          (if err_header err ''x-ratelimit-remaining'' \<noteq> Some ''0''
           then (if retries \<noteq> 0
                 then requestWrapper2_with new_error request (retries - 1) (called e)
                 else Some (Inl err, called e))
           else requestWrapper2_with new_error request retries
                  (wait (diff (resetMoment (err_header err ''x-ratelimit-reset'')) (called e))
                     (called e))))"

declare requestWrapper2_with.simps [code]

definition requestWrapper2 :: "'d request \<Rightarrow> int \<Rightarrow> env \<Rightarrow> ((err + 'd) \<times> env) option" where
  "requestWrapper2 = requestWrapper2_with RateLimitError"

text \<open>The default of the parameter \<open>retries\<close>.\<close>

definition default_retries :: int where
  "default_retries = 1"

section \<open>The crawl controller\<close>

text \<open>
  The API client, by the four operations the controller asks of it. Each takes the
  parameters of the call and gives the promise.
\<close>

record SearchParams =
  q :: string
  sort :: "string option"
  order :: "string option"
  page :: "int option"
  per_page :: "int option"

record Octokit =
  search_users :: "SearchParams \<Rightarrow> SearchResult request"
  users_repos :: "string \<Rightarrow> Repo list request"
  users :: "string \<Rightarrow> PublicUser request"
  repos_events :: "string \<Rightarrow> string \<Rightarrow> Event list request"

record ScraperConfig =
  octokit :: Octokit
  baseQuery :: string
  resultLocation :: string

text \<open>
  The fields of a \<open>Scraper\<close> that change after \<open>setup\<close>. How \<open>setup\<close> fills the first
  three from the saved document is not modelled: a run may start from any of them.
\<close>

record scraper =
  this_nextPageToScrape :: int
  this_date :: string
  this_organizations :: "Organization list"
  totalCount :: int
  oldestOrgDate :: string

definition saveToFile :: "ScraperConfig \<Rightarrow> scraper \<Rightarrow> env \<Rightarrow> env" where
  "saveToFile cfg this e =
     (let result = \<lparr>nextPageToScrape = this_nextPageToScrape this,
                     searchingDate = this_date this,
                     organizations = this_organizations this\<rparr>
      in e\<lparr>written := written e @ [(resultLocation cfg, result)]\<rparr>)"

subsection \<open>The aggregator\<close>

text \<open>The five \<open>reduce\<close> calls; \<open>x ?? 0\<close> is 0 for an absent value.\<close>

definition nullish :: "int option \<Rightarrow> int \<Rightarrow> int" where
  "nullish x dflt = (case x of None \<Rightarrow> dflt | Some v \<Rightarrow> v)"

definition sumRepoStars :: "RepoWithEvents list \<Rightarrow> int" where
  "sumRepoStars repos = foldl (\<lambda>acc r. acc + nullish (stargazers_count r) 0) 0 repos"

definition sumRepoWatchers :: "RepoWithEvents list \<Rightarrow> int" where
  "sumRepoWatchers repos = foldl (\<lambda>acc r. acc + nullish (watchers_count r) 0) 0 repos"

definition sumRepoForks :: "RepoWithEvents list \<Rightarrow> int" where
  "sumRepoForks repos = foldl (\<lambda>acc r. acc + nullish (forks_count r) 0) 0 repos"

definition sumRepoOpenIssues :: "RepoWithEvents list \<Rightarrow> int" where
  "sumRepoOpenIssues repos = foldl (\<lambda>acc r. acc + nullish (open_issues_count r) 0) 0 repos"

definition sumRepoLast90DaysEvents :: "RepoWithEvents list \<Rightarrow> int" where
  "sumRepoLast90DaysEvents repos = foldl (\<lambda>acc r. acc + last_90_days_events_count r) 0 repos"

text \<open>The object literal \<open>org\<close>, from the profile and the repositories with their events.\<close>

definition assemble :: "PublicUser \<Rightarrow> RepoWithEvents list \<Rightarrow> Organization" where
  "assemble publicUser repos =
     \<lparr>login = PublicUser.login publicUser,
      id' = PublicUser.id' publicUser,
      avatarUrl = avatar_url publicUser,
      htmlUrl = html_url publicUser,
      name = PublicUser.name publicUser,
      company = PublicUser.company publicUser,
      blog = PublicUser.blog publicUser,
      location = PublicUser.location publicUser,
      email = PublicUser.email publicUser,
      hireable = PublicUser.hireable publicUser,
      bio = PublicUser.bio publicUser,
      twitterUsername = twitter_username publicUser,
      publicRepos = public_repos publicUser,
      followers = PublicUser.followers publicUser,
      following = PublicUser.following publicUser,
      createdAt = created_at publicUser,
      updatedAt = updated_at publicUser,
      totalRepoStars = sumRepoStars repos,
      totalRepoWatchers = sumRepoWatchers repos,
      totalRepoForks = sumRepoForks repos,
      totalRepoOpenIssues = sumRepoOpenIssues repos,
      totalRepoLast90DaysEvents = sumRepoLast90DaysEvents repos\<rparr>"

subsection \<open>Enrichment of one candidate\<close>

text \<open>\<open>{ ...repo, last_90_days_events_count }\<close>\<close>

definition with_events :: "Repo \<Rightarrow> int \<Rightarrow> RepoWithEvents" where
  "with_events repo n = Repo.extend repo (RepoWithEvents.fields n)"

text \<open>
  The loop \<open>for (const repo of rawRepos)\<close>, with the list \<open>repos\<close> built so far. The
  \<open>catch\<close> around the event fetch lets only a \<open>RepoBlocked\<close> pass, as zero events; any
  other error ends the loop and is the result.
\<close>

fun for_rawRepos ::
  "ScraperConfig \<Rightarrow> string \<Rightarrow> Repo list \<Rightarrow> RepoWithEvents list \<Rightarrow> env
     \<Rightarrow> ((err + RepoWithEvents list) \<times> env) option" where
  "for_rawRepos cfg owner [] repos e = Some (Inr repos, e)"
| "for_rawRepos cfg owner (repo # rawRepos) repos e =
     (case requestWrapper (repos_events (octokit cfg) owner (repo_name repo)) default_retries e of
        None \<Rightarrow> None
      | Some (Inr events, e1) \<Rightarrow>
          for_rawRepos cfg owner rawRepos (repos @ [with_events repo (int (length events))]) e1
      | Some (Inl err, e1) \<Rightarrow>
          (if \<not> instanceof_RepoBlocked err then Some (Inl err, e1)
           else for_rawRepos cfg owner rawRepos (repos @ [with_events repo 0]) e1))"

text \<open>
  The body of \<open>for (const organization of orgs.items)\<close> for one candidate: the
  deduplication, the repositories, the profile, the events, the aggregation, the append and
  the save. A \<open>continue\<close> gives the state back as it is.
\<close>

definition for_organization ::
  "ScraperConfig \<Rightarrow> SearchItem \<Rightarrow> scraper \<Rightarrow> env \<Rightarrow> ((err + scraper) \<times> env) option" where
  "for_organization cfg organization this e =
     (if list_ex (\<lambda>org. Organization.login org = item_login organization) (this_organizations this)
      then Some (Inr this, e)
      else
        (case requestWrapper (users_repos (octokit cfg) (item_login organization)) default_retries e of
           None \<Rightarrow> None
         | Some (Inl err, e1) \<Rightarrow> Some (Inl err, e1)
         | Some (Inr rawRepos, e1) \<Rightarrow>
             (if length rawRepos = 0 then Some (Inr this, e1)
              else
                (case requestWrapper (users (octokit cfg) (item_login organization)) default_retries e1 of
                   None \<Rightarrow> None
                 | Some (Inl err, e2) \<Rightarrow> Some (Inl err, e2)
                 | Some (Inr publicUser, e2) \<Rightarrow>
                     (case for_rawRepos cfg (item_login organization) rawRepos [] e2 of
                        None \<Rightarrow> None
                      | Some (Inl err, e3) \<Rightarrow> Some (Inl err, e3)
                      | Some (Inr repos, e3) \<Rightarrow>
                          (let org = assemble publicUser repos;
                               this' = this\<lparr>this_organizations := this_organizations this @ [org]\<rparr>
                           in Some (Inr this', saveToFile cfg this' e3)))))))"

fun for_items ::
  "ScraperConfig \<Rightarrow> SearchItem list \<Rightarrow> scraper \<Rightarrow> env \<Rightarrow> ((err + scraper) \<times> env) option" where
  "for_items cfg [] this e = Some (Inr this, e)"
| "for_items cfg (organization # rest) this e =
     (case for_organization cfg organization this e of
        None \<Rightarrow> None
      | Some (Inl err, e1) \<Rightarrow> Some (Inl err, e1)
      | Some (Inr this', e1) \<Rightarrow> for_items cfg rest this' e1)"

subsection \<open>The window loop\<close>

text \<open>
  The call for one page of the current window: the query is the base query and the
  \<open>created:\<close> range from a week before the searching date to the searching date.
\<close>

definition page_request :: "ScraperConfig \<Rightarrow> scraper \<Rightarrow> SearchResult request" where
  "page_request cfg this =
     (let dateCreated = ''created:'' @ getPreviousWeek (this_date this) @ ''..'' @ this_date this
      in search_users (octokit cfg)
           \<lparr>q = baseQuery cfg @ '' '' @ dateCreated, sort = None, order = None,
            page = Some (this_nextPageToScrape this), per_page = Some 100\<rparr>)"

text \<open>One pass through the body of the \<open>while\<close> loop of \<open>run\<close>.\<close>

definition loop_body ::
  "ScraperConfig \<Rightarrow> scraper \<Rightarrow> env \<Rightarrow> ((err + scraper) \<times> env) option" where
  "loop_body cfg this e =
     (case requestWrapper (page_request cfg this) default_retries e of
        None \<Rightarrow> None
      | Some (Inl err, e1) \<Rightarrow> Some (Inl err, e1)
      | Some (Inr orgs, e1) \<Rightarrow>
          (if length (items orgs) = 0
           then
             (let this' = this\<lparr>this_date := getPreviousWeek (this_date this),
                                this_nextPageToScrape := 1\<rparr>
              in Some (Inr this', saveToFile cfg this' e1))
           else
             (case for_items cfg (items orgs) this e1 of
                None \<Rightarrow> None
              | Some (Inl err, e2) \<Rightarrow> Some (Inl err, e2)
              | Some (Inr this2, e2) \<Rightarrow>
                  (let this' = this2\<lparr>this_nextPageToScrape := this_nextPageToScrape this2 + 1\<rparr>
                   in Some (Inr this', saveToFile cfg this' e2)))))"

text \<open>
  The \<open>while\<close> loop of \<open>run\<close>: it runs while the searching date is after the stamp of
  the oldest account. An error from the body rejects the promise of \<open>run\<close>; \<open>None\<close> is
  a loop that never ends.
\<close>

partial_function (option) while_loop ::
  "ScraperConfig \<Rightarrow> scraper \<Rightarrow> env \<Rightarrow> ((err + scraper) \<times> env) option" where
  "while_loop cfg this e =
     (if isAfter (this_date this) (oldestOrgDate this)
      then
        (case loop_body cfg this e of
           None \<Rightarrow> None
         | Some (Inl err, e1) \<Rightarrow> Some (Inl err, e1)
         | Some (Inr this', e1) \<Rightarrow> while_loop cfg this' e1)
      else Some (Inr this, e))"

declare while_loop.simps [code]



section \<open>Example worlds\<close>

text \<open>
  Small concrete worlds on which the statements below are run. A scripted call answers
  its first calls from a list, by the number of calls issued before it, and every later call
  with a fixed outcome.
\<close>

definition start :: env where
  "start = \<lparr>now = 0, calls = 0, written = []\<rparr>"

definition scripted :: "'d outcome list \<Rightarrow> 'd outcome \<Rightarrow> 'd request" where
  "scripted outs last_out e = (if calls e < length outs then outs ! calls e else last_out)"

definition quota_headers :: "string \<Rightarrow> string \<Rightarrow> (string \<rightharpoonup> string)" where
  "quota_headers remaining reset =
     [''x-ratelimit-remaining'' \<mapsto> remaining, ''x-ratelimit-reset'' \<mapsto> reset]"

definition ok :: "'d \<Rightarrow> 'd outcome" where
  "ok d = Resolve \<lparr>data = d, headers = quota_headers ''42'' ''100''\<rparr>"

definition ok_no_quota :: "'d \<Rightarrow> 'd outcome" where
  "ok_no_quota d = Resolve \<lparr>data = d, headers = quota_headers ''0'' ''100''\<rparr>"

definition rate_limited :: err where
  "rate_limited =
     RequestError (Some \<lparr>data = Some \<lparr>message = Some ''API rate limit exceeded'', block = None\<rparr>,
                          headers = quota_headers ''0'' ''100''\<rparr>)"

definition blocked_no_quota :: err where
  "blocked_no_quota =
     RequestError (Some \<lparr>data = Some \<lparr>message = Some ''Repository access blocked'',
                                        block = Some \<lparr>reason = Some ''tos''\<rparr>\<rparr>,
                          headers = quota_headers ''0'' ''100''\<rparr>)"

definition blocked :: err where
  "blocked =
     RequestError (Some \<lparr>data = Some \<lparr>message = Some ''Repository access blocked'',
                                        block = Some \<lparr>reason = Some ''dmca''\<rparr>\<rparr>,
                          headers = quota_headers ''42'' ''100''\<rparr>)"

definition server_error :: err where
  "server_error =
     RequestError (Some \<lparr>data = Some \<lparr>message = Some ''Server Error'', block = None\<rparr>,
                          headers = quota_headers ''42'' ''100''\<rparr>)"

definition network_error :: err where
  "network_error = RequestError None"



text \<open>
  A small directory: the search in the order of joining, and page 1 of every window, list \<open>acme\<close>, \<open>ghost\<close> and \<open>acme\<close>
  again, and every later page of a window is empty; \<open>acme\<close> owns three repositories, of which the
  events of \<open>b\<close> are blocked; \<open>ghost\<close> owns none. In the second directory the events of
  \<open>b\<close> fail with a server error instead.
\<close>

definition acme_repos :: "Repo list" where
  "acme_repos =
     [\<lparr>repo_name = ''a'', stargazers_count = Some 3, watchers_count = Some 1,
        forks_count = Some 0, open_issues_count = Some 4\<rparr>,
      \<lparr>repo_name = ''b'', stargazers_count = Some 0, watchers_count = Some 1,
        forks_count = Some 2, open_issues_count = Some 0\<rparr>,
      \<lparr>repo_name = ''c'', stargazers_count = Some 5, watchers_count = Some 1,
        forks_count = Some 0, open_issues_count = Some 0\<rparr>]"

definition profile_of :: "string \<Rightarrow> PublicUser" where
  "profile_of lg =
     \<lparr>PublicUser.login = lg, PublicUser.id' = 1, avatar_url = ''https://example.org/a.png'',
      html_url = ''https://example.org/'' @ lg, PublicUser.name = Some lg,
      PublicUser.company = None, PublicUser.blog = None, PublicUser.location = None,
      PublicUser.email = None, PublicUser.hireable = None, PublicUser.bio = None,
      twitter_username = None, public_repos = 3, PublicUser.followers = 0,
      PublicUser.following = 0, created_at = ''2021-03-02T10:00:00Z'',
      updated_at = ''2021-03-03T10:00:00Z''\<rparr>"

definition first_page :: SearchResult where
  "first_page =
     \<lparr>items = [\<lparr>item_login = ''acme''\<rparr>, \<lparr>item_login = ''ghost''\<rparr>, \<lparr>item_login = ''acme''\<rparr>],
      total_count = 2\<rparr>"

definition empty_page :: SearchResult where
  "empty_page = \<lparr>items = [], total_count = 2\<rparr>"

definition example_octokit :: "err \<Rightarrow> Octokit" where
  "example_octokit events_error =
     \<lparr>search_users = (\<lambda>params e.
         if sort params = Some ''joined'' \<or> page params = Some 1 then ok first_page
         else ok empty_page),
      users_repos = (\<lambda>username e. if username = ''acme'' then ok acme_repos else ok []),
      users = (\<lambda>username e. ok (profile_of username)),
      repos_events = (\<lambda>owner repo e.
         if repo = ''a'' then ok (replicate 10 (Event ''PushEvent''))
         else if repo = ''b'' then Reject events_error
         else ok (replicate 7 (Event ''PushEvent'')))\<rparr>"

definition example_config :: "err \<Rightarrow> ScraperConfig" where
  "example_config events_error =
     \<lparr>octokit = example_octokit events_error, baseQuery = ''type:org'',
      resultLocation = ''result.json''\<rparr>"

text \<open>A crawler at a page of the window that ends on 5 March 2021, the oldest account being of 1 March.\<close>

definition example_scraper :: "int \<Rightarrow> scraper" where
  "example_scraper p =
     \<lparr>this_nextPageToScrape = p, this_date = ''2021-03-05'', this_organizations = [],
      totalCount = 2, oldestOrgDate = ''2021-03-01T00:00:00Z''\<rparr>"

definition acme :: Organization where
  "acme =
     \<lparr>login = ''acme'', id' = 1, avatarUrl = ''https://example.org/a.png'',
      htmlUrl = ''https://example.org/acme'', name = Some ''acme'', company = None, blog = None,
      location = None, email = None, hireable = None, bio = None, twitterUsername = None,
      publicRepos = 3, followers = 0, following = 0, createdAt = ''2021-03-02T10:00:00Z'',
      updatedAt = ''2021-03-03T10:00:00Z'', totalRepoStars = 8, totalRepoWatchers = 3,
      totalRepoForks = 2, totalRepoOpenIssues = 4, totalRepoLast90DaysEvents = 17\<rparr>"

section \<open>Calendar arithmetic\<close>

lemma ceil_div_step:
  fixes y k :: int
  assumes "0 < k"
  shows "(y + 1 + (k - 1)) div k = (y + (k - 1)) div k + (if y mod k = 0 then 1 else 0)"
proof -
  define q where "q = y div k"
  define r where "r = y mod k"
  have y: "y = k * q + r" and r: "0 \<le> r" "r < k" using assms by (simp_all add: q_def r_def)
  have a: "(y + 1 + (k - 1)) div k = q + 1"
  proof -
    have "(y + 1 + (k - 1)) div k = (k * (q + 1) + r) div k" by (simp add: y algebra_simps)
    also have "\<dots> = (q + 1) + r div k" using assms by simp
    also have "r div k = 0" using r by simp
    finally show ?thesis by simp
  qed
  have b: "(y + (k - 1)) div k = (if r = 0 then q else q + 1)"
  proof (cases "r = 0")
    case True
    have "(y + (k - 1)) div k = (k * q + (k - 1)) div k" by (simp add: y True)
    also have "\<dots> = q + (k - 1) div k" using assms by simp
    also have "(k - 1) div k = 0" using assms by simp
    finally show ?thesis using True by simp
  next
    case False
    have "(y + (k - 1)) div k = (k * (q + 1) + (r - 1)) div k" by (simp add: y algebra_simps)
    also have "\<dots> = (q + 1) + (r - 1) div k" using assms by simp
    also have "(r - 1) div k = 0" using assms r False by simp
    finally show ?thesis using False by simp
  qed
  show ?thesis using a b by (simp add: r_def)
qed

lemma days_before_year_Suc: "days_before_year (y + 1) = days_before_year y + (if is_leap y then 366 else 365)"
proof -
  have 4: "(y + 1 + 3) div 4 = (y + 3) div 4 + (if y mod 4 = 0 then 1 else 0)"
    using ceil_div_step[of 4 y] by simp
  have 100: "(y + 1 + 99) div 100 = (y + 99) div 100 + (if y mod 100 = 0 then 1 else 0)"
    using ceil_div_step[of 100 y] by simp
  have 400: "(y + 1 + 399) div 400 = (y + 399) div 400 + (if y mod 400 = 0 then 1 else 0)"
    using ceil_div_step[of 400 y] by simp
  have m1: "y mod 400 = 0 \<Longrightarrow> y mod 100 = 0"
  proof -
    assume "y mod 400 = 0"
    then have "400 dvd y" by (simp add: dvd_eq_mod_eq_0)
    moreover have "(100::int) dvd 400" by simp
    ultimately have "100 dvd y" by (rule dvd_trans[rotated])
    then show ?thesis by (simp add: dvd_eq_mod_eq_0)
  qed
  have m2: "y mod 100 = 0 \<Longrightarrow> y mod 4 = 0"
  proof -
    assume "y mod 100 = 0"
    then have "100 dvd y" by (simp add: dvd_eq_mod_eq_0)
    moreover have "(4::int) dvd 100" by simp
    ultimately have "4 dvd y" by (rule dvd_trans[rotated])
    then show ?thesis by (simp add: dvd_eq_mod_eq_0)
  qed
  define a where "a = (y + 3) div 4"
  define b where "b = (y + 99) div 100"
  define c where "c = (y + 399) div 400"
  define p4 where "p4 = (y mod 4 = 0)"
  define p100 where "p100 = (y mod 100 = 0)"
  define p400 where "p400 = (y mod 400 = 0)"
  have s: "days_before_year (y + 1) = 365 * (y + 1) + (y + 1 + 3) div 4 - (y + 1 + 99) div 100 + (y + 1 + 399) div 400"
    by (simp only: days_before_year_def add.assoc)
  have t: "days_before_year (y + 1) = 365 * (y + 1) + (a + (if p4 then 1 else 0)) - (b + (if p100 then 1 else 0)) + (c + (if p400 then 1 else 0))"
    unfolding s 4 100 400 a_def b_def c_def p4_def p100_def p400_def ..
  have u: "days_before_year y = 365 * y + a - b + c"
    unfolding days_before_year_def a_def b_def c_def ..
  have l: "is_leap y = (p4 \<and> (\<not> p100 \<or> p400))"
    unfolding is_leap_def p4_def p100_def p400_def ..
  have i1: "p400 \<Longrightarrow> p100" unfolding p400_def p100_def by (rule m1)
  have i2: "p100 \<Longrightarrow> p4" unfolding p100_def p4_def by (rule m2)
  show ?thesis unfolding t u l using i1 i2 by (cases p4; cases p100; cases p400) simp_all
qed

lemma days_before_month_step:
  "1 \<le> m \<Longrightarrow> days_before_month y (Suc m) = days_before_month y m + int (days_in_month y m)"
  by (simp add: days_before_month_def)

lemma days_before_month_13: "days_before_month y 13 = (if is_leap y then 366 else 365)"
  by (simp add: days_before_month_def days_in_month_def upt_rec)

lemma days_in_month_ge: "28 \<le> days_in_month y m"
  by (simp add: days_in_month_def)

lemma day_number_subtract_week:
  assumes "valid_date d"
  shows "day_number (subtract_week d) = day_number d - 7"
proof -
  consider "7 < day d" | "day d \<le> 7" "1 < month d" | "day d \<le> 7" "month d \<le> 1" by linarith
  then show ?thesis
  proof cases
    case 1 then show ?thesis by (simp add: subtract_week_def day_number_def)
  next
    case 2
    then obtain m where m: "month d = Suc m" "1 \<le> m" by (cases "month d") auto
    have "28 \<le> days_in_month (year d) m" by (rule days_in_month_ge)
    with 2 m assms show ?thesis
      by (simp add: subtract_week_def day_number_def days_before_month_step)
  next
    case 3
    with assms have m: "month d = 1" by (simp add: valid_date_def)
    define L where "L = (if is_leap (year d - 1) then 366 else (365::int))"
    have "days_before_month (year d - 1) 13 = days_before_month (year d - 1) 12 + 31"
      using days_before_month_step[of 12 "year d - 1"] by (simp add: days_in_month_def)
    then have a: "days_before_month (year d - 1) 12 = L - 31"
      unfolding days_before_month_13 L_def by simp
    have b: "days_before_year (year d) = days_before_year (year d - 1) + L"
      using days_before_year_Suc[of "year d - 1"] unfolding L_def by simp
    have c: "days_before_month (year d) (Suc 0) = 0" by (simp add: days_before_month_def)
    show ?thesis using 3 m
      by (simp add: subtract_week_def day_number_def a b c)
  qed
qed

lemma valid_subtract_week:
  assumes "valid_date d"
  shows "valid_date (subtract_week d)"
proof -
  consider "7 < day d" | "day d \<le> 7" "1 < month d" | "day d \<le> 7" "month d \<le> 1" by linarith
  then show ?thesis
  proof cases
    case 1 with assms show ?thesis by (auto simp: subtract_week_def valid_date_def)
  next
    case 2
    have "28 \<le> days_in_month (year d) (month d - 1)" by (rule days_in_month_ge)
    with 2 assms show ?thesis by (simp add: subtract_week_def valid_date_def, arith)
  next
    case 3
    with assms have m: "month d = 1" by (simp add: valid_date_def)
    have "days_in_month (year d - 1) 12 = 31" by (simp add: days_in_month_def)
    with 3 m assms show ?thesis by (simp add: subtract_week_def valid_date_def)
  qed
qed

subsection \<open>A date written and read back\<close>

lemma digit_table:
  "\<forall>k\<in>set [0..<10]. is_digit (''0123456789'' ! k) \<and> digit_val (''0123456789'' ! k) = k"
  by (simp add: upt_rec is_digit_def digit_val_def)

lemma digit_char_is_digit [simp]: "is_digit (digit_char n)"
  using digit_table by (simp add: digit_char_def)

lemma digit_val_digit_char [simp]: "digit_val (digit_char n) = n mod 10"
  using digit_table by (simp add: digit_char_def)

lemma digit_char_0 [simp]: "digit_char 0 = CHR ''0''"
  by (simp add: digit_char_def)

lemma not_digit_minus [simp]: "\<not> is_digit CHR ''-''"
  by (simp add: is_digit_def)

lemma decimal_small: "n < 10 \<Longrightarrow> decimal n = [digit_char n]"
  by (subst decimal.simps) simp

lemma decimal_step: "10 \<le> n \<Longrightarrow> decimal n = decimal (n div 10) @ [digit_char n]"
  by (subst decimal.simps) simp

lemma length_decimal_pos: "0 < length (decimal n)"
  by (subst decimal.simps) simp

lemma length_decimal_ge: "10 ^ k \<le> n \<Longrightarrow> k < length (decimal n)"
proof (induction k arbitrary: n)
  case 0
  show ?case by (rule length_decimal_pos)
next
  case (Suc k)
  have "(10::nat) \<le> 10 ^ Suc k" by simp
  with Suc.prems have n: "10 \<le> n" by linarith
  have "10 ^ k * 10 \<le> n" using Suc.prems by (simp add: mult.commute)
  then have "10 ^ k \<le> n div 10" by (simp add: less_eq_div_iff_mult_less_eq)
  from Suc.IH[OF this] show ?case by (simp add: decimal_step[OF n])
qed

lemma decimal_2: "10 \<le> n \<Longrightarrow> n < 100 \<Longrightarrow> decimal n = [digit_char (n div 10), digit_char n]"
  by (simp add: decimal_step decimal_small)

lemma decimal_3:
  assumes "100 \<le> n" "n < 1000"
  shows "decimal n = [digit_char (n div 100), digit_char (n div 10), digit_char n]"
proof -
  have "10 \<le> n div 10" "n div 10 < 100" using assms by (simp_all add: less_eq_div_iff_mult_less_eq div_less_iff_less_mult)
  then have "decimal (n div 10) = [digit_char (n div 10 div 10), digit_char (n div 10)]"
    by (rule decimal_2)
  moreover have "n div 10 div 10 = n div 100" by (simp add: div_mult2_eq)
  ultimately show ?thesis using assms by (simp add: decimal_step)
qed

lemma decimal_4:
  assumes "1000 \<le> n" "n < 10000"
  shows "decimal n = [digit_char (n div 1000), digit_char (n div 100), digit_char (n div 10), digit_char n]"
proof -
  have "100 \<le> n div 10" "n div 10 < 1000" using assms by (simp_all add: less_eq_div_iff_mult_less_eq div_less_iff_less_mult)
  then have "decimal (n div 10) = [digit_char (n div 10 div 100), digit_char (n div 10 div 10), digit_char (n div 10)]"
    by (rule decimal_3)
  moreover have "n div 10 div 10 = n div 100" "n div 10 div 100 = n div 1000" by (simp_all add: div_mult2_eq)
  ultimately show ?thesis using assms by (simp add: decimal_step)
qed

lemma replicate_small:
  "replicate 3 c = [c, c, c]" "replicate 2 c = [c, c]" "replicate (Suc 0) c = [c]"
  by (simp_all add: numeral_eq_Suc)

lemma zeroFill_4:
  assumes "n < 10000"
  shows "zeroFill (int n) 4 = [digit_char (n div 1000), digit_char (n div 100), digit_char (n div 10), digit_char n]"
proof -
  consider "n < 10" | "10 \<le> n" "n < 100" | "100 \<le> n" "n < 1000" | "1000 \<le> n" by linarith
  then show ?thesis
  proof cases
    case 1 then show ?thesis by (simp add: zeroFill_def decimal_small replicate_small)
  next
    case 2 then show ?thesis by (simp add: zeroFill_def decimal_2 replicate_small)
  next
    case 3 then show ?thesis by (simp add: zeroFill_def decimal_3 replicate_small)
  next
    case 4 with assms show ?thesis by (simp add: zeroFill_def decimal_4)
  qed
qed

lemma zeroFill_2:
  assumes "n < 100"
  shows "zeroFill (int n) 2 = [digit_char (n div 10), digit_char n]"
proof (cases "n < 10")
  case True then show ?thesis by (simp add: zeroFill_def decimal_small replicate_small)
next
  case False with assms show ?thesis by (simp add: zeroFill_def decimal_2)
qed

lemma digits_val_2: "n < 100 \<Longrightarrow> digits_val [digit_char (n div 10), digit_char n] = n"
proof -
  assume "n < 100"
  then have "n div 10 mod 10 = n div 10" by (simp add: div_less_iff_less_mult)
  then show ?thesis by (simp add: digits_val_def)
qed

lemma digits_val_4:
  assumes "n < 10000"
  shows "digits_val [digit_char (n div 1000), digit_char (n div 100), digit_char (n div 10), digit_char n] = n"
proof -
  define q1 where "q1 = n div 10"
  define q2 where "q2 = q1 div 10"
  define q3 where "q3 = q2 div 10"
  have e2: "n div 100 = q2" and e3: "n div 1000 = q3"
    by (simp_all add: q1_def q2_def q3_def div_mult2_eq)
  have "q3 < 10" using assms unfolding e3[symmetric] by (simp add: div_less_iff_less_mult)
  then have m3: "q3 mod 10 = q3" by simp
  have s1: "10 * q1 + n mod 10 = n" unfolding q1_def by simp
  have s2: "10 * q2 + q1 mod 10 = q1" unfolding q2_def by simp
  have s3: "10 * q3 + q2 mod 10 = q2" unfolding q3_def by simp
  have "digits_val [digit_char (n div 1000), digit_char (n div 100), digit_char (n div 10), digit_char n]
      = 10 * (10 * (10 * q3 + q2 mod 10) + q1 mod 10) + n mod 10"
    by (simp add: digits_val_def e2 e3 m3 q1_def[symmetric])
  also have "\<dots> = n" unfolding s3 s2 s1 ..
  finally show ?thesis .
qed

lemma parse_format_date:
  assumes "valid_date d"
  shows "parse_date (format_date d) = (if 0 \<le> year d \<and> year d \<le> 9999 then Some d else None)"
proof -
  from assms have m: "month d < 100" and dd: "day d < 100"
    by (auto simp: valid_date_def days_in_month_def split: if_splits)
  note md = zeroFill_2[OF m] zeroFill_2[OF dd]
  consider "year d < 0" | "0 \<le> year d" "year d \<le> 9999" | "9999 < year d" by linarith
  then show ?thesis
  proof cases
    case 1
    then obtain rest where "zeroFill (year d) 4 = CHR ''-'' # rest" by (simp add: zeroFill_def Let_def)
    with 1 show ?thesis by (simp add: parse_date_def format_date_def)
  next
    case 2
    define n where "n = nat (year d)"
    from 2 have n: "year d = int n" "n < 10000" by (simp_all add: n_def)
    let ?s = "[digit_char (n div 1000), digit_char (n div 100), digit_char (n div 10), digit_char n,
               CHR ''-'', digit_char (month d div 10), digit_char (month d),
               CHR ''-'', digit_char (day d div 10), digit_char (day d)]"
    let ?d = "\<lparr>year = int n, month = month d, day = day d\<rparr>"
    have r: "?d = d" using n(1) by simp
    have fmt: "format_date d = ?s"
      unfolding format_date_def n(1) zeroFill_4[OF n(2)] md by simp
    have v: "valid_date ?d" unfolding r by (rule assms)
    have "parse_date ?s = Some ?d"
      using v by (simp add: parse_date_def digits_val_4[OF n(2)] digits_val_2[OF m] digits_val_2[OF dd])
    then have "parse_date (format_date d) = Some d" unfolding fmt r .
    with 2 show ?thesis by simp
  next
    case 3
    then have "10 ^ 4 \<le> nat \<bar>year d\<bar>" by simp
    from length_decimal_ge[OF this] 3 have "4 < length (zeroFill (year d) 4)"
      by (simp add: zeroFill_def Let_def)
    with 3 show ?thesis by (simp add: parse_date_def format_date_def md)
  qed
qed

subsection \<open>Day numbers tell dates apart\<close>

lemma days_before_year_mono_aux: "days_before_year y \<le> days_before_year (y + int k)"
proof (induction k)
  case 0
  show ?case by simp
next
  case (Suc k)
  have "y + int (Suc k) = (y + int k) + 1" by simp
  then have "days_before_year (y + int (Suc k)) = days_before_year ((y + int k) + 1)"
    by (simp only:)
  also have "\<dots> = days_before_year (y + int k) + (if is_leap (y + int k) then 366 else 365)"
    by (rule days_before_year_Suc)
  finally show ?case using Suc.IH by (simp split: if_splits)
qed

lemma days_before_year_next:
  assumes "y < y'"
  shows "days_before_year y + (if is_leap y then 366 else 365) \<le> days_before_year y'"
proof -
  define k where "k = nat (y' - (y + 1))"
  have "y' = (y + 1) + int k" using assms by (simp add: k_def)
  then show ?thesis
    using days_before_year_mono_aux[of "y + 1" k] days_before_year_Suc[of y] by simp
qed

lemma days_before_month_mono:
  assumes "m \<le> m'"
  shows "days_before_month y m \<le> days_before_month y m'"
proof -
  have "[1..<m'] = [1..<m] @ [m..<m'] \<or> m = 0"
    using assms by (metis le_add_diff_inverse upt_add_eq_append not_less_eq_eq not_one_le_zero Suc_leI neq0_conv One_nat_def)
  then show ?thesis
  proof
    assume "[1..<m'] = [1..<m] @ [m..<m']"
    then show ?thesis by (simp add: days_before_month_def)
  next
    assume "m = 0"
    then show ?thesis by (simp add: days_before_month_def)
  qed
qed

lemma day_of_year_bounds:
  assumes "valid_date d"
  shows "1 \<le> days_before_month (year d) (month d) + int (day d)"
    and "days_before_month (year d) (month d) + int (day d) \<le> (if is_leap (year d) then 366 else 365)"
proof -
  from assms have m: "1 \<le> month d" "month d \<le> 12" and dd: "1 \<le> day d"
    "day d \<le> days_in_month (year d) (month d)" by (simp_all add: valid_date_def)
  have "0 \<le> days_before_month (year d) (month d)" by (simp add: days_before_month_def)
  with dd show "1 \<le> days_before_month (year d) (month d) + int (day d)" by simp
  have "days_before_month (year d) (month d) + int (day d)
      \<le> days_before_month (year d) (Suc (month d))"
    using days_before_month_step[OF m(1)] dd by simp
  also have "\<dots> \<le> days_before_month (year d) 13"
    using m by (intro days_before_month_mono) simp
  finally show "days_before_month (year d) (month d) + int (day d) \<le> (if is_leap (year d) then 366 else 365)"
    unfolding days_before_month_13 .
qed

lemma day_number_year_less:
  assumes "valid_date d" "valid_date d'" "year d < year d'"
  shows "day_number d < day_number d'"
proof -
  have "day_number d \<le> days_before_year (year d) + (if is_leap (year d) then 366 else 365)"
    using day_of_year_bounds(2)[OF assms(1)] by (simp add: day_number_def)
  also have "\<dots> \<le> days_before_year (year d')" using assms(3) by (rule days_before_year_next)
  also have "\<dots> < day_number d'"
    using day_of_year_bounds(1)[OF assms(2)] by (simp add: day_number_def)
  finally show ?thesis .
qed

lemma day_number_month_less:
  assumes "valid_date d" "valid_date d'" "year d = year d'" "month d < month d'"
  shows "day_number d < day_number d'"
proof -
  from assms(1) have m: "1 \<le> month d" and dd: "day d \<le> days_in_month (year d) (month d)"
    by (simp_all add: valid_date_def)
  from assms(2) have dd': "1 \<le> day d'" by (simp add: valid_date_def)
  have "days_before_month (year d) (month d) + int (day d)
      \<le> days_before_month (year d) (Suc (month d))"
    using days_before_month_step[OF m] dd by simp
  also have "\<dots> \<le> days_before_month (year d) (month d')"
    using assms(4) by (intro days_before_month_mono) simp
  also have "\<dots> < days_before_month (year d) (month d') + int (day d')" using dd' by simp
  finally show ?thesis using assms(3) by (simp add: day_number_def)
qed

lemma day_number_inj:
  assumes "valid_date d" "valid_date d'" "day_number d = day_number d'"
  shows "d = d'"
proof -
  have y: "year d = year d'"
    using day_number_year_less[OF assms(1,2)] day_number_year_less[OF assms(2,1)] assms(3)
    by (cases "year d" "year d'" rule: linorder_cases) simp_all
  have m: "month d = month d'"
    using day_number_month_less[OF assms(1,2) y] day_number_month_less[OF assms(2,1) y[symmetric]] assms(3)
    by (cases "month d" "month d'" rule: linorder_cases) simp_all
  from assms(3) y m have "day d = day d'" by (simp add: day_number_def)
  with y m show ?thesis by simp
qed

lemma valid_next_day: "valid_date d \<Longrightarrow> valid_date (next_day d)"
  by (auto simp: valid_date_def next_day_def days_in_month_ge[THEN order_trans[rotated]]
      intro: order_trans[OF _ days_in_month_ge])

lemma day_number_next_day:
  assumes "valid_date d"
  shows "day_number (next_day d) = day_number d + 1"
proof -
  from assms have m: "1 \<le> month d" "month d \<le> 12" and dd: "1 \<le> day d"
    "day d \<le> days_in_month (year d) (month d)" by (simp_all add: valid_date_def)
  consider "day d < days_in_month (year d) (month d)"
    | "day d = days_in_month (year d) (month d)" "month d < 12"
    | "day d = days_in_month (year d) (month d)" "month d = 12"
    using m dd by linarith
  then show ?thesis
  proof cases
    case 1
    then show ?thesis by (simp add: next_day_def day_number_def)
  next
    case 2
    then show ?thesis
      using days_before_month_step[OF m(1), of "year d"]
      by (simp add: next_day_def day_number_def)
  next
    case 3
    have "days_before_month (year d) 13 = days_before_month (year d) 12 + int (days_in_month (year d) 12)"
      using days_before_month_step[of 12 "year d"] by simp
    then have a: "days_before_month (year d) 12 + int (days_in_month (year d) 12)
        = (if is_leap (year d) then 366 else 365)"
      unfolding days_before_month_13 by simp
    have b: "days_before_year (year d + 1) = days_before_year (year d) + (if is_leap (year d) then 366 else 365)"
      by (rule days_before_year_Suc)
    have c: "days_before_month (year d + 1) (Suc 0) = 0" by (simp add: days_before_month_def)
    from 3 a b c show ?thesis by (simp add: next_day_def day_number_def)
  qed
qed

lemma funpow_next_day:
  "valid_date d \<Longrightarrow> valid_date ((next_day ^^ k) d) \<and> day_number ((next_day ^^ k) d) = day_number d + int k"
proof (induction k)
  case 0
  then show ?case by simp
next
  case (Suc k)
  then show ?case using valid_next_day day_number_next_day by simp
qed

text \<open>Seven days after the date a week before a day comes that day.\<close>

lemma subtract_week_seven_days:
  assumes "valid_date d"
  shows "(next_day ^^ 7) (subtract_week d) = d"
proof -
  note v = valid_subtract_week[OF assms]
  from funpow_next_day[OF v, of 7] day_number_subtract_week[OF assms]
  have "valid_date ((next_day ^^ 7) (subtract_week d))"
    and "day_number ((next_day ^^ 7) (subtract_week d)) = day_number d" by simp_all
  with assms show ?thesis by (intro day_number_inj)
qed

lemma valueOf_anchor:
  "valueOf \<lparr>year = 1970, month = 1, day = 1\<rparr> = 0"
  "valueOf \<lparr>year = 2021, month = 3, day = 1\<rparr> = 1614556800000"
  by (simp_all add: valueOf_def day_number_def days_before_year_def days_before_month_def
      days_in_month_def is_leap_def upt_rec)

section \<open>Properties of the request governor\<close>

lemma called_simps [simp]:
  "calls (called e) = Suc (calls e)" "now (called e) = now e" "written (called e) = written e"
  by (simp_all add: called_def)

lemma wait_simps [simp]:
  "calls (wait ms e) = calls e" "now (wait ms e) = now e + max 0 ms" "written (wait ms e) = written e"
  by (simp_all add: wait_def)

lemma requestWrapper_frame_aux:
  assumes "requestWrapper request retries e = Some y"
  shows "written (snd y) = written e \<and> calls e < calls (snd y) \<and> now e \<le> now (snd y)"
proof (rule requestWrapper.raw_induct
    [where P = "\<lambda>request retries e y. written (snd y) = written e \<and> calls e < calls (snd y) \<and> now e \<le> now (snd y)",
      OF _ assms], goal_cases)
  case (1 rw request retries e y)
  show ?case
  proof (cases "request e")
    case (Resolve r)
    with 1(2) show ?thesis by auto
  next
    case (Reject err)
    show ?thesis
    proof (cases "err_message err = Some ''Repository access blocked''")
      case True
      with 1(2) Reject show ?thesis by auto
    next
      case nb: False
      show ?thesis
      proof (cases "err_header err ''x-ratelimit-remaining'' \<noteq> Some ''0''")
        case tr: True
        show ?thesis
        proof (cases "retries = 0")
          case True
          with 1(2) Reject nb tr show ?thesis by auto
        next
          case False
          with 1(2) Reject nb tr
          have "rw request (retries - 1) (called e) = Some y" by simp
          from 1(1)[OF this] show ?thesis by simp
        qed
      next
        case False
        with 1(2) Reject nb
        have "rw request retries (wait (diff (resetMoment (err_header err ''x-ratelimit-reset'')) (called e)) (called e)) = Some y"
          by simp
        from 1(1)[OF this] show ?thesis by (simp add: max_def split: if_splits)
      qed
    qed
  qed
qed

lemma requestWrapper_frame:
  "requestWrapper request retries e = Some (res, e') \<Longrightarrow>
     written e' = written e \<and> calls e < calls e' \<and> now e \<le> now e'"
  using requestWrapper_frame_aux[of request retries e "(res, e')"] by simp



lemmas world_defs = scripted_def start_def rate_limited_def blocked_no_quota_def blocked_def
  server_error_def network_error_def ok_def ok_no_quota_def quota_headers_def
lemmas governor_defs = err_message_def err_header_def new_RepoBlocked_def called_def wait_def diff_def
  resetMoment_def Number_def is_digit_def digits_val_def digit_val_def try2_def default_retries_def
  rate_limit_metadata_def

lemma requestWrapper_rate_limited:
  assumes "request e = Reject err"
    and "err_message err \<noteq> Some ''Repository access blocked''"
    and "err_header err ''x-ratelimit-remaining'' = Some ''0''"
  shows "requestWrapper request retries e =
           requestWrapper request retries
             (wait (diff (resetMoment (err_header err ''x-ratelimit-reset'')) (called e)) (called e))"
  using assms by (subst requestWrapper.simps) simp

lemma requestWrapper2_with_rate_limited:
  assumes "request e = Reject err"
    and "err_header err ''x-ratelimit-remaining'' = Some ''0''"
  shows "requestWrapper2_with new_error request retries e =
           requestWrapper2_with new_error request retries
             (wait (diff (resetMoment (err_header err ''x-ratelimit-reset'')) (called e)) (called e))"
  using assms by (subst requestWrapper2_with.simps) (simp add: try2_def)

lemma requestWrapper2_rate_limited:
  assumes "request e = Reject err"
    and "err_header err ''x-ratelimit-remaining'' = Some ''0''"
  shows "requestWrapper2 request retries e =
           requestWrapper2 request retries
             (wait (diff (resetMoment (err_header err ''x-ratelimit-reset'')) (called e)) (called e))"
  unfolding requestWrapper2_def using assms
  by (rule requestWrapper2_with_rate_limited)

lemma wait_until_reset:
  assumes "Number h = Some reset"
  shows "resetMoment h = Some ((reset + 1) * 1000)"
    and "wait (diff (resetMoment h) (called e)) (called e) =
           \<lparr>now = max (now e) ((reset + 1) * 1000), calls = Suc (calls e), written = written e\<rparr>"
  using assms by (simp_all add: resetMoment_def diff_def wait_def called_def max_def)

text \<open>
  Claim C4, as the code has it. When a call fails with an error whose response headers
  report zero remaining quota, the second governor always, and the first governor unless the
  error payload carries the blocked message, goes on as the same call with the same retry
  budget from a world in which one more call is counted and the timer has run. When the
  reset header is a number of epoch seconds, the instant computed is that number plus one
  second, in milliseconds, and the clock after the wait is that instant, or the clock as
  it was if the instant lies in the past.
\<close>

theorem rate_limit_wait_keeps_budget:
  assumes "request e = Reject err"
    and "err_header err ''x-ratelimit-remaining'' = Some ''0''"
  shows "(err_message err \<noteq> Some ''Repository access blocked'' \<longrightarrow>
            requestWrapper request retries e =
              requestWrapper request retries
                (wait (diff (resetMoment (err_header err ''x-ratelimit-reset'')) (called e)) (called e)))
       \<and> requestWrapper2 request retries e =
            requestWrapper2 request retries
              (wait (diff (resetMoment (err_header err ''x-ratelimit-reset'')) (called e)) (called e))
       \<and> (\<forall>reset. Number (err_header err ''x-ratelimit-reset'') = Some reset \<longrightarrow>
            resetMoment (err_header err ''x-ratelimit-reset'') = Some ((reset + 1) * 1000)
          \<and> wait (diff (resetMoment (err_header err ''x-ratelimit-reset'')) (called e)) (called e) =
              \<lparr>now = max (now e) ((reset + 1) * 1000), calls = Suc (calls e), written = written e\<rparr>)"
proof (intro conjI impI allI)
  assume nb: "err_message err \<noteq> Some ''Repository access blocked''"
  from assms(1) nb assms(2) show "requestWrapper request retries e =
      requestWrapper request retries
        (wait (diff (resetMoment (err_header err ''x-ratelimit-reset'')) (called e)) (called e))"
    by (rule requestWrapper_rate_limited[of request e err retries])
next
  from assms show "requestWrapper2 request retries e =
      requestWrapper2 request retries
        (wait (diff (resetMoment (err_header err ''x-ratelimit-reset'')) (called e)) (called e))"
    by (rule requestWrapper2_rate_limited[of request e err retries])
next
  fix reset assume "Number (err_header err ''x-ratelimit-reset'') = Some reset"
  then show "resetMoment (err_header err ''x-ratelimit-reset'') = Some ((reset + 1) * 1000)"
    by (rule wait_until_reset(1))
next
  fix reset assume "Number (err_header err ''x-ratelimit-reset'') = Some reset"
  then show "wait (diff (resetMoment (err_header err ''x-ratelimit-reset'')) (called e)) (called e) =
      \<lparr>now = max (now e) ((reset + 1) * 1000), calls = Suc (calls e), written = written e\<rparr>"
    by (rule wait_until_reset(2))
qed

text \<open>
  One rate-limit error with reset instant 100 and then a success, the budget being 0: both
  governors wait until second 101 and return the data of the second call.
\<close>

theorem rate_limit_wait_keeps_budget_witness:
  "requestWrapper (scripted [Reject rate_limited] (ok (7::nat))) 0 start =
     Some (Inr 7, \<lparr>now = 101000, calls = 2, written = []\<rparr>)
   \<and> requestWrapper2 (scripted [Reject rate_limited] (ok (7::nat))) 0 start =
     Some (Inr 7, \<lparr>now = 101000, calls = 2, written = []\<rparr>)"
proof -
  have 1: "scripted [Reject rate_limited] (ok (7::nat)) start = Reject rate_limited"
    by (simp add: world_defs)
  have 2: "err_header rate_limited ''x-ratelimit-remaining'' = Some ''0''"
    by (simp add: world_defs governor_defs)
  have 3: "err_message rate_limited \<noteq> Some ''Repository access blocked''"
    by (simp add: world_defs governor_defs)
  have 4: "Number (err_header rate_limited ''x-ratelimit-reset'') = Some 100"
    by (simp add: world_defs governor_defs)
  note step = rate_limit_wait_keeps_budget
    [of "scripted [Reject rate_limited] (ok (7::nat))" start rate_limited 0, OF 1 2]
  from step 3 4 have a: "requestWrapper (scripted [Reject rate_limited] (ok (7::nat))) 0 start =
      requestWrapper (scripted [Reject rate_limited] (ok (7::nat))) 0 \<lparr>now = max (now start) ((100 + 1) * 1000), calls = Suc (calls start), written = written start\<rparr>"
    by metis
  from step 4 have b: "requestWrapper2 (scripted [Reject rate_limited] (ok (7::nat))) 0 start =
      requestWrapper2 (scripted [Reject rate_limited] (ok (7::nat))) 0 \<lparr>now = max (now start) ((100 + 1) * 1000), calls = Suc (calls start), written = written start\<rparr>"
    by metis
  show ?thesis unfolding a b
    by (simp add: requestWrapper.simps requestWrapper2_def requestWrapper2_with.simps world_defs governor_defs)
qed

text \<open>
  Claim C4 as stated fails in the first governor: an error whose headers report zero
  remaining quota and whose payload carries the blocked message is answered at once with
  \<open>RepoBlocked\<close>; the clock stays at 0, short of the reset instant 101000, and nothing is
  retried.
\<close>

theorem blocked_with_no_quota_fails_at_once:
  "err_header blocked_no_quota ''x-ratelimit-remaining'' = Some ''0''
   \<and> Number (err_header blocked_no_quota ''x-ratelimit-reset'') = Some 100
   \<and> requestWrapper (scripted [Reject blocked_no_quota] (ok (7::nat))) 1 start =
       Some (Inl (RepoBlocked (Some ''tos'')), \<lparr>now = 0, calls = 1, written = []\<rparr>)
   \<and> requestWrapper (scripted [Reject blocked_no_quota] (ok (7::nat))) 1 start \<noteq>
       requestWrapper (scripted [Reject blocked_no_quota] (ok (7::nat))) 1
         (wait (diff (resetMoment (err_header blocked_no_quota ''x-ratelimit-reset'')) (called start)) (called start))"
  by (simp add: requestWrapper.simps world_defs governor_defs)







lemma requestWrapper_transient:
  assumes "request e = Reject err"
    and "err_message err \<noteq> Some ''Repository access blocked''"
    and "err_header err ''x-ratelimit-remaining'' \<noteq> Some ''0''"
  shows "requestWrapper request retries e =
           (if retries \<noteq> 0 then requestWrapper request (retries - 1) (called e)
            else Some (Inl err, called e))"
  using assms by (subst requestWrapper.simps) simp

lemma requestWrapper_resolve:
  assumes "request e = Resolve r"
  shows "requestWrapper request retries e = Some (Inr (data r), called e)"
  using assms by (subst requestWrapper.simps) simp

lemma persistent_transient:
  assumes "\<forall>k\<le>n. \<exists>err. request ((called ^^ k) e) = Reject err
              \<and> err_message err \<noteq> Some ''Repository access blocked''
              \<and> err_header err ''x-ratelimit-remaining'' \<noteq> Some ''0''"
  shows "\<exists>err. request ((called ^^ n) e) = Reject err
            \<and> requestWrapper request (int n) e = Some (Inl err, (called ^^ Suc n) e)"
  using assms
proof (induction n arbitrary: e)
  case 0
  then obtain err where "request e = Reject err"
    "err_message err \<noteq> Some ''Repository access blocked''"
    "err_header err ''x-ratelimit-remaining'' \<noteq> Some ''0''" by auto
  then show ?case using requestWrapper_transient[of request e err 0] by simp
next
  case (Suc n)
  from Suc.prems have "\<exists>err. request ((called ^^ 0) e) = Reject err
              \<and> err_message err \<noteq> Some ''Repository access blocked''
              \<and> err_header err ''x-ratelimit-remaining'' \<noteq> Some ''0''" by blast
  then obtain err where err: "request e = Reject err"
    "err_message err \<noteq> Some ''Repository access blocked''"
    "err_header err ''x-ratelimit-remaining'' \<noteq> Some ''0''" by auto
  have "\<forall>k\<le>n. \<exists>err. request ((called ^^ k) (called e)) = Reject err
              \<and> err_message err \<noteq> Some ''Repository access blocked''
              \<and> err_header err ''x-ratelimit-remaining'' \<noteq> Some ''0''"
  proof (intro allI impI)
    fix k assume "k \<le> n"
    then have "Suc k \<le> Suc n" by simp
    with Suc.prems have "\<exists>err. request ((called ^^ Suc k) e) = Reject err
              \<and> err_message err \<noteq> Some ''Repository access blocked''
              \<and> err_header err ''x-ratelimit-remaining'' \<noteq> Some ''0''" by blast
    then show "\<exists>err. request ((called ^^ k) (called e)) = Reject err
              \<and> err_message err \<noteq> Some ''Repository access blocked''
              \<and> err_header err ''x-ratelimit-remaining'' \<noteq> Some ''0''"
      by (simp add: funpow_swap1)
  qed
  from Suc.IH[OF this] obtain err' where
    "request ((called ^^ n) (called e)) = Reject err'"
    "requestWrapper request (int n) (called e) = Some (Inl err', (called ^^ Suc n) (called e))"
    by blast
  moreover have "requestWrapper request (int (Suc n)) e = requestWrapper request (int n) (called e)"
    using requestWrapper_transient[of request e err "int (Suc n)"] err by simp
  ultimately show ?case by (simp add: funpow_swap1)
qed

lemma default_budget_two_attempts:
  assumes "\<forall>e' err. request e' = Reject err \<longrightarrow>
             err_message err \<noteq> Some ''Repository access blocked''
             \<and> err_header err ''x-ratelimit-remaining'' \<noteq> Some ''0''"
  shows "\<exists>res e'. requestWrapper request default_retries e = Some (res, e') \<and> calls e' \<le> calls e + 2"
proof (cases "request e")
  case (Resolve r)
  then show ?thesis using requestWrapper_resolve[of request e r default_retries] by simp
next
  case (Reject err)
  with assms have 1: "requestWrapper request default_retries e = requestWrapper request 0 (called e)"
    using requestWrapper_transient[of request e err default_retries] by (simp add: default_retries_def)
  show ?thesis
  proof (cases "request (called e)")
    case (Resolve r)
    then show ?thesis using requestWrapper_resolve[of request "called e" r 0] 1 by simp
  next
    case (Reject err')
    with assms have "requestWrapper request 0 (called e) = Some (Inl err', called (called e))"
      using requestWrapper_transient[of request "called e" err' 0] by simp
    with 1 show ?thesis by simp
  qed
qed

text \<open>
  Claim C6. When a call fails with an error that neither carries the blocked message nor
  reports zero remaining quota: with a budget above 0 the governor goes on as the same call
  with the budget one lower, and with the budget 0 it returns that very error. A call that
  keeps failing so is made once more than the budget says, and the error returned is the one
  of the last attempt. With the default budget, a call whose failures are all of this kind
  returns after at most two attempts.
\<close>

theorem transient_errors_use_the_budget:
  "(request e = Reject err
      \<and> err_message err \<noteq> Some ''Repository access blocked''
      \<and> err_header err ''x-ratelimit-remaining'' \<noteq> Some ''0'' \<longrightarrow>
      (0 < retries \<longrightarrow>
         requestWrapper request retries e = requestWrapper request (retries - 1) (called e))
    \<and> (retries = 0 \<longrightarrow> requestWrapper request retries e = Some (Inl err, called e)))
   \<and> ((\<forall>k\<le>n. \<exists>err. request ((called ^^ k) e) = Reject err
              \<and> err_message err \<noteq> Some ''Repository access blocked''
              \<and> err_header err ''x-ratelimit-remaining'' \<noteq> Some ''0'') \<longrightarrow>
       (\<exists>err. request ((called ^^ n) e) = Reject err
            \<and> requestWrapper request (int n) e = Some (Inl err, (called ^^ Suc n) e)))
   \<and> ((\<forall>e' err. request e' = Reject err \<longrightarrow>
             err_message err \<noteq> Some ''Repository access blocked''
             \<and> err_header err ''x-ratelimit-remaining'' \<noteq> Some ''0'') \<longrightarrow>
       (\<exists>res e'. requestWrapper request default_retries e = Some (res, e') \<and> calls e' \<le> calls e + 2))"
proof (intro conjI impI)
  assume a: "request e = Reject err
      \<and> err_message err \<noteq> Some ''Repository access blocked''
      \<and> err_header err ''x-ratelimit-remaining'' \<noteq> Some ''0''"
  { assume "0 < retries"
    with a show "requestWrapper request retries e = requestWrapper request (retries - 1) (called e)"
      using requestWrapper_transient[of request e err retries] by simp }
  { assume "retries = 0"
    with a show "requestWrapper request retries e = Some (Inl err, called e)"
      using requestWrapper_transient[of request e err retries] by simp }
next
  assume "\<forall>k\<le>n. \<exists>err. request ((called ^^ k) e) = Reject err
              \<and> err_message err \<noteq> Some ''Repository access blocked''
              \<and> err_header err ''x-ratelimit-remaining'' \<noteq> Some ''0''"
  then show "\<exists>err. request ((called ^^ n) e) = Reject err
            \<and> requestWrapper request (int n) e = Some (Inl err, (called ^^ Suc n) e)"
    by (rule persistent_transient)
next
  assume "\<forall>e' err. request e' = Reject err \<longrightarrow>
             err_message err \<noteq> Some ''Repository access blocked''
             \<and> err_header err ''x-ratelimit-remaining'' \<noteq> Some ''0''"
  then show "\<exists>res e'. requestWrapper request default_retries e = Some (res, e') \<and> calls e' \<le> calls e + 2"
    by (rule default_budget_two_attempts)
qed


text \<open>
  A server error and then a network error under the default budget: two calls, and the
  second error is the result.
\<close>

theorem transient_errors_use_the_budget_witness:
  "requestWrapper (scripted [Reject server_error, Reject network_error] (ok (7::nat))) 1 start =
     Some (Inl network_error, \<lparr>now = 0, calls = 2, written = []\<rparr>)
   \<and> requestWrapper (scripted [Reject server_error] (ok (7::nat))) 1 start =
     requestWrapper (scripted [Reject server_error] (ok (7::nat))) 0 (called start)"
proof -
  let ?rq = "scripted [Reject server_error, Reject network_error] (ok (7::nat))"
  let ?rq1 = "scripted [Reject server_error] (ok (7::nat))"
  have t1: "err_message server_error \<noteq> Some ''Repository access blocked''
      \<and> err_header server_error ''x-ratelimit-remaining'' \<noteq> Some ''0''"
    by (simp add: world_defs governor_defs)
  have t2: "err_message network_error \<noteq> Some ''Repository access blocked''
      \<and> err_header network_error ''x-ratelimit-remaining'' \<noteq> Some ''0''"
    by (simp add: world_defs governor_defs)
  have r0: "?rq ((called ^^ 0) start) = Reject server_error"
    by (simp add: scripted_def start_def)
  have r1: "?rq ((called ^^ 1) start) = Reject network_error"
    by (simp add: scripted_def start_def called_def)
  have h: "\<forall>k\<le>1. \<exists>err. ?rq ((called ^^ k) start) = Reject err
              \<and> err_message err \<noteq> Some ''Repository access blocked''
              \<and> err_header err ''x-ratelimit-remaining'' \<noteq> Some ''0''"
  proof (intro allI impI)
    fix k :: nat assume "k \<le> 1"
    then consider "k = 0" | "k = 1" by linarith
    then show "\<exists>err. ?rq ((called ^^ k) start) = Reject err
              \<and> err_message err \<noteq> Some ''Repository access blocked''
              \<and> err_header err ''x-ratelimit-remaining'' \<noteq> Some ''0''"
      using r0 r1 t1 t2 by cases auto
  qed
  note inst = transient_errors_use_the_budget[of ?rq start server_error 1 1]
  from inst h obtain err where
    "?rq ((called ^^ 1) start) = Reject err"
    "requestWrapper ?rq (int 1) start = Some (Inl err, (called ^^ Suc 1) start)"
    by blast
  with r1 have a: "requestWrapper ?rq 1 start = Some (Inl network_error, \<lparr>now = 0, calls = 2, written = []\<rparr>)"
    by (simp add: start_def called_def)
  have s0: "?rq1 start = Reject server_error" by (simp add: scripted_def start_def)
  have b: "requestWrapper ?rq1 1 start = requestWrapper ?rq1 0 (called start)"
    using transient_errors_use_the_budget[of ?rq1 start server_error 1 0] s0 t1 by simp
  show ?thesis using a b by simp
qed





section \<open>Properties of the crawl controller\<close>

lemma foldl_add_sum_list:
  fixes f :: "'a \<Rightarrow> int"
  shows "foldl (\<lambda>acc r. acc + f r) a xs = a + sum_list (map f xs)"
  by (induction xs arbitrary: a) simp_all

lemmas sum_defs = sumRepoStars_def sumRepoWatchers_def sumRepoForks_def sumRepoOpenIssues_def
  sumRepoLast90DaysEvents_def

text \<open>
  Claim C8. Each of the five counters of an entity is the sum of its field over the list
  of repositories, an absent star, watcher, fork or open-issue count adding 0. For the
  three repositories with stars 3, 0, 5, watchers 1, 1, 1, forks 0, 2, 0, open issues
  4, 0, 0 and events 10, 0, 7 the counters are 8, 3, 2, 4 and 17, and for no repository
  they are all 0.
\<close>

theorem aggregation_sums:
  "sumRepoStars repos = sum_list (map (\<lambda>r. case stargazers_count r of None \<Rightarrow> 0 | Some n \<Rightarrow> n) repos)
   \<and> sumRepoWatchers repos = sum_list (map (\<lambda>r. case watchers_count r of None \<Rightarrow> 0 | Some n \<Rightarrow> n) repos)
   \<and> sumRepoForks repos = sum_list (map (\<lambda>r. case forks_count r of None \<Rightarrow> 0 | Some n \<Rightarrow> n) repos)
   \<and> sumRepoOpenIssues repos = sum_list (map (\<lambda>r. case open_issues_count r of None \<Rightarrow> 0 | Some n \<Rightarrow> n) repos)
   \<and> sumRepoLast90DaysEvents repos = sum_list (map last_90_days_events_count repos)
   \<and> totalRepoStars (assemble publicUser repos) = sumRepoStars repos
   \<and> totalRepoWatchers (assemble publicUser repos) = sumRepoWatchers repos
   \<and> totalRepoForks (assemble publicUser repos) = sumRepoForks repos
   \<and> totalRepoOpenIssues (assemble publicUser repos) = sumRepoOpenIssues repos
   \<and> totalRepoLast90DaysEvents (assemble publicUser repos) = sumRepoLast90DaysEvents repos
   \<and> map stargazers_count acme_repos = [Some 3, Some 0, Some 5]
   \<and> map watchers_count acme_repos = [Some 1, Some 1, Some 1]
   \<and> map forks_count acme_repos = [Some 0, Some 2, Some 0]
   \<and> map open_issues_count acme_repos = [Some 4, Some 0, Some 0]
   \<and> totalRepoStars (assemble publicUser (map2 with_events acme_repos [10, 0, 7])) = 8
   \<and> totalRepoWatchers (assemble publicUser (map2 with_events acme_repos [10, 0, 7])) = 3
   \<and> totalRepoForks (assemble publicUser (map2 with_events acme_repos [10, 0, 7])) = 2
   \<and> totalRepoOpenIssues (assemble publicUser (map2 with_events acme_repos [10, 0, 7])) = 4
   \<and> totalRepoLast90DaysEvents (assemble publicUser (map2 with_events acme_repos [10, 0, 7])) = 17
   \<and> totalRepoStars (assemble publicUser []) = 0
   \<and> totalRepoWatchers (assemble publicUser []) = 0
   \<and> totalRepoForks (assemble publicUser []) = 0
   \<and> totalRepoOpenIssues (assemble publicUser []) = 0
   \<and> totalRepoLast90DaysEvents (assemble publicUser []) = 0"
proof -
  have sums: "sumRepoStars repos = sum_list (map (\<lambda>r. case stargazers_count r of None \<Rightarrow> 0 | Some n \<Rightarrow> n) repos)"
    "sumRepoWatchers repos = sum_list (map (\<lambda>r. case watchers_count r of None \<Rightarrow> 0 | Some n \<Rightarrow> n) repos)"
    "sumRepoForks repos = sum_list (map (\<lambda>r. case forks_count r of None \<Rightarrow> 0 | Some n \<Rightarrow> n) repos)"
    "sumRepoOpenIssues repos = sum_list (map (\<lambda>r. case open_issues_count r of None \<Rightarrow> 0 | Some n \<Rightarrow> n) repos)"
    "sumRepoLast90DaysEvents repos = sum_list (map last_90_days_events_count repos)"
    by (simp_all add: sum_defs foldl_add_sum_list nullish_def)
  have totals: "totalRepoStars (assemble publicUser rs) = sumRepoStars rs"
    "totalRepoWatchers (assemble publicUser rs) = sumRepoWatchers rs"
    "totalRepoForks (assemble publicUser rs) = sumRepoForks rs"
    "totalRepoOpenIssues (assemble publicUser rs) = sumRepoOpenIssues rs"
    "totalRepoLast90DaysEvents (assemble publicUser rs) = sumRepoLast90DaysEvents rs" for rs
    by (simp_all add: assemble_def)
  have fields: "map stargazers_count acme_repos = [Some 3, Some 0, Some 5]"
    "map watchers_count acme_repos = [Some 1, Some 1, Some 1]"
    "map forks_count acme_repos = [Some 0, Some 2, Some 0]"
    "map open_issues_count acme_repos = [Some 4, Some 0, Some 0]"
    by (simp_all add: acme_repos_def)
  have example: "sumRepoStars (map2 with_events acme_repos [10, 0, 7]) = 8"
    "sumRepoWatchers (map2 with_events acme_repos [10, 0, 7]) = 3"
    "sumRepoForks (map2 with_events acme_repos [10, 0, 7]) = 2"
    "sumRepoOpenIssues (map2 with_events acme_repos [10, 0, 7]) = 4"
    "sumRepoLast90DaysEvents (map2 with_events acme_repos [10, 0, 7]) = 17"
    by (simp_all add: sum_defs acme_repos_def with_events_def nullish_def
        Repo.extend_def RepoWithEvents.fields_def Repo.defs RepoWithEvents.defs)
  have none: "sumRepoStars [] = 0" "sumRepoWatchers [] = 0" "sumRepoForks [] = 0"
    "sumRepoOpenIssues [] = 0" "sumRepoLast90DaysEvents [] = 0"
    by (simp_all add: sum_defs)
  show ?thesis unfolding totals example none using sums fields by simp
qed

lemma saveToFile_simps [simp]:
  "now (saveToFile cfg this e) = now e" "calls (saveToFile cfg this e) = calls e"
  "written (saveToFile cfg this e) =
     written e @ [(resultLocation cfg,
        \<lparr>nextPageToScrape = this_nextPageToScrape this, searchingDate = this_date this,
         organizations = this_organizations this\<rparr>)]"
  by (simp_all add: saveToFile_def)

lemma for_rawRepos_written:
  "for_rawRepos cfg owner rawRepos repos e = Some (res, e') \<Longrightarrow> written e' = written e"
proof (induction rawRepos arbitrary: repos e)
  case Nil
  then show ?case by simp
next
  case (Cons repo rawRepos)
  let ?rq = "requestWrapper (repos_events (octokit cfg) owner (repo_name repo)) default_retries e"
  from Cons.prems obtain r e1 where rq: "?rq = Some (r, e1)"
    by (cases ?rq) auto
  then have w: "written e1 = written e" using requestWrapper_frame by blast
  show ?case
  proof (cases r)
    case (Inr events)
    with Cons.prems rq
    have "for_rawRepos cfg owner rawRepos (repos @ [with_events repo (int (length events))]) e1 = Some (res, e')"
      by simp
    from Cons.IH[OF this] w show ?thesis by simp
  next
    case (Inl err)
    show ?thesis
    proof (cases "instanceof_RepoBlocked err")
      case True
      with Cons.prems rq Inl
      have "for_rawRepos cfg owner rawRepos (repos @ [with_events repo 0]) e1 = Some (res, e')"
        by simp
      from Cons.IH[OF this] w show ?thesis by simp
    next
      case False
      with Cons.prems rq Inl w show ?thesis by simp
    qed
  qed
qed

text \<open>What the body of the loop over the candidates can do, case by case.\<close>

lemma for_organization_cases:
  assumes "for_organization cfg organization this e = Some (res, e')"
  shows "(res = Inr this \<and> written e' = written e)
       \<or> (\<exists>err. res = Inl err \<and> written e' = written e)
       \<or> (\<exists>publicUser repos e1 e2.
             \<not> list_ex (\<lambda>org. Organization.login org = item_login organization) (this_organizations this)
             \<and> requestWrapper (users (octokit cfg) (item_login organization)) default_retries e1
                 = Some (Inr publicUser, e2)
             \<and> res = Inr (this\<lparr>this_organizations := this_organizations this @ [assemble publicUser repos]\<rparr>)
             \<and> written e' = written e @ [(resultLocation cfg,
                  \<lparr>nextPageToScrape = this_nextPageToScrape this, searchingDate = this_date this,
                   organizations = this_organizations this @ [assemble publicUser repos]\<rparr>)])"
proof (cases "list_ex (\<lambda>org. Organization.login org = item_login organization) (this_organizations this)")
  case True
  with assms show ?thesis by (auto simp: for_organization_def)
next
  case nd: False
  let ?rq1 = "requestWrapper (users_repos (octokit cfg) (item_login organization)) default_retries e"
  from assms nd obtain r1 e1 where rq1: "?rq1 = Some (r1, e1)"
    by (cases ?rq1) (auto simp: for_organization_def)
  then have w1: "written e1 = written e" using requestWrapper_frame by blast
  show ?thesis
  proof (cases r1)
    case (Inl err)
    with assms nd rq1 w1 show ?thesis by (auto simp: for_organization_def)
  next
    case (Inr rawRepos)
    show ?thesis
    proof (cases "length rawRepos = 0")
      case True
      with assms nd rq1 Inr w1 show ?thesis by (auto simp: for_organization_def)
    next
      case ne: False
      let ?rq2 = "requestWrapper (users (octokit cfg) (item_login organization)) default_retries e1"
      from assms nd rq1 Inr ne obtain r2 e2 where rq2: "?rq2 = Some (r2, e2)"
        by (cases ?rq2) (auto simp: for_organization_def)
      then have w2: "written e2 = written e" using requestWrapper_frame w1 by metis
      show ?thesis
      proof (cases r2)
        case (Inl err)
        with assms nd rq1 \<open>r1 = Inr rawRepos\<close> ne rq2 w2 show ?thesis
          by (auto simp: for_organization_def)
      next
        case pu: (Inr publicUser)
        let ?lp = "for_rawRepos cfg (item_login organization) rawRepos [] e2"
        from assms nd rq1 Inr ne rq2 pu obtain r3 e3 where lp: "?lp = Some (r3, e3)"
          by (cases ?lp) (auto simp: for_organization_def)
        then have w3: "written e3 = written e" using for_rawRepos_written w2 by metis
        show ?thesis
        proof (cases r3)
          case (Inl err)
          with assms nd rq1 \<open>r1 = Inr rawRepos\<close> ne rq2 pu lp w3 show ?thesis
            by (auto simp: for_organization_def)
        next
          case (Inr repos)
          with assms nd rq1 \<open>r1 = Inr rawRepos\<close> ne rq2 pu lp w3
          have "res = Inr (this\<lparr>this_organizations := this_organizations this @ [assemble publicUser repos]\<rparr>)"
            and "written e' = written e @ [(resultLocation cfg,
                  \<lparr>nextPageToScrape = this_nextPageToScrape this, searchingDate = this_date this,
                   organizations = this_organizations this @ [assemble publicUser repos]\<rparr>)]"
            by (auto simp: for_organization_def Let_def)
          with nd rq2 pu show ?thesis by blast
        qed
      qed
    qed
  qed
qed


lemmas example_defs = example_config_def example_octokit_def example_scraper_def first_page_def
  empty_page_def acme_repos_def profile_of_def acme_def

text \<open>
  Claim C9. When a candidate is not yet in the list and its repositories come back as the
  empty list, the body of the loop ends for it with the state of the crawler as it was:
  nothing is appended, nothing is saved (the history of saved documents is the one from
  before the candidate), and the page goes on with the next candidate.
\<close>

theorem no_repositories_no_record:
  assumes "\<not> list_ex (\<lambda>org. Organization.login org = item_login organization) (this_organizations this)"
    and "requestWrapper (users_repos (octokit cfg) (item_login organization)) default_retries e
           = Some (Inr rawRepos, e1)"
    and "rawRepos = []"
  shows "for_organization cfg organization this e = Some (Inr this, e1)
       \<and> written e1 = written e
       \<and> for_items cfg (organization # rest) this e = for_items cfg rest this e1"
proof -
  have a: "for_organization cfg organization this e = Some (Inr this, e1)"
    using assms by (simp add: for_organization_def)
  have b: "written e1 = written e"
    using requestWrapper_frame[OF assms(2)] by simp
  from a b show ?thesis by simp
qed

text \<open>
  The candidate \<open>ghost\<close> of the example directory: one call, no document saved.
\<close>

theorem no_repositories_no_record_witness:
  "for_organization (example_config blocked) \<lparr>item_login = ''ghost''\<rparr> (example_scraper 1) start
     = Some (Inr (example_scraper 1), \<lparr>now = 0, calls = 1, written = []\<rparr>)"
proof -
  have 1: "\<not> list_ex (\<lambda>org. Organization.login org = item_login \<lparr>item_login = ''ghost''\<rparr>)
             (this_organizations (example_scraper 1))"
    by (simp add: example_scraper_def)
  have 2: "requestWrapper (users_repos (octokit (example_config blocked)) (item_login \<lparr>item_login = ''ghost''\<rparr>))
             default_retries start = Some (Inr [], \<lparr>now = 0, calls = 1, written = []\<rparr>)"
    by (simp add: requestWrapper.simps example_defs world_defs governor_defs)
  from no_repositories_no_record[OF 1 2 refl] show ?thesis by simp
qed

lemma parse_date_valid: "parse_date s = Some d \<Longrightarrow> valid_date d"
  by (auto simp: parse_date_def Let_def split: if_splits)

lemma isAfter_parses: "isAfter s bound \<Longrightarrow> \<exists>d. parse_date s = Some d \<and> valid_date d"
  by (cases "parse_date s") (auto simp: isAfter_def dest: parse_date_valid)

lemma loop_body_empty_page:
  assumes "requestWrapper (page_request cfg this) default_retries e = Some (Inr orgs, e1)"
    and "items orgs = []"
  shows "loop_body cfg this e =
           Some (Inr (this\<lparr>this_date := getPreviousWeek (this_date this), this_nextPageToScrape := 1\<rparr>),
                 e1\<lparr>written := written e @ [(resultLocation cfg,
                       \<lparr>nextPageToScrape = 1, searchingDate = getPreviousWeek (this_date this),
                        organizations = this_organizations this\<rparr>)]\<rparr>)"
  using assms requestWrapper_frame[OF assms(1)]
  by (simp add: loop_body_def saveToFile_def)




lemma for_organization_state:
  assumes "for_organization cfg organization this e = Some (Inr this', e')"
  shows "this_date this' = this_date this \<and> this_nextPageToScrape this' = this_nextPageToScrape this
       \<and> oldestOrgDate this' = oldestOrgDate this \<and> totalCount this' = totalCount this"
  using for_organization_cases[OF assms] by auto

lemma for_organization_saved:
  assumes "for_organization cfg organization this e = Some (res, e')"
  shows "\<exists>new. written e' = written e @ new
           \<and> (\<forall>doc\<in>set new. searchingDate (snd doc) = this_date this
                  \<and> nextPageToScrape (snd doc) = this_nextPageToScrape this)"
  using for_organization_cases[OF assms] by auto

lemma for_items_state:
  "for_items cfg candidates this e = Some (Inr this', e') \<Longrightarrow>
     this_date this' = this_date this \<and> this_nextPageToScrape this' = this_nextPageToScrape this
       \<and> oldestOrgDate this' = oldestOrgDate this \<and> totalCount this' = totalCount this"
proof (induction candidates arbitrary: this e)
  case Nil
  then show ?case by simp
next
  case (Cons organization rest)
  let ?b = "for_organization cfg organization this e"
  from Cons.prems obtain this1 e1 where b: "?b = Some (Inr this1, e1)"
    and r: "for_items cfg rest this1 e1 = Some (Inr this', e')"
    by (auto split: option.splits sum.splits)
  from Cons.IH[OF r] for_organization_state[OF b] show ?case by simp
qed

lemma for_items_saved:
  "for_items cfg candidates this e = Some (res, e') \<Longrightarrow>
     \<exists>new. written e' = written e @ new
           \<and> (\<forall>doc\<in>set new. searchingDate (snd doc) = this_date this
                  \<and> nextPageToScrape (snd doc) = this_nextPageToScrape this)"
proof (induction candidates arbitrary: this e)
  case Nil
  then show ?case by simp
next
  case (Cons organization rest)
  let ?b = "for_organization cfg organization this e"
  from Cons.prems obtain r1 e1 where b: "?b = Some (r1, e1)"
    by (cases ?b) auto
  from for_organization_saved[OF b] obtain new1 where n1: "written e1 = written e @ new1"
    "\<forall>doc\<in>set new1. searchingDate (snd doc) = this_date this
        \<and> nextPageToScrape (snd doc) = this_nextPageToScrape this" by blast
  show ?case
  proof (cases r1)
    case (Inl err)
    with Cons.prems b have "e' = e1" by simp
    with n1 show ?thesis by blast
  next
    case (Inr this1)
    with Cons.prems b have r: "for_items cfg rest this1 e1 = Some (res, e')" by simp
    from Cons.IH[OF r] obtain new2 where n2: "written e' = written e1 @ new2"
      "\<forall>doc\<in>set new2. searchingDate (snd doc) = this_date this1
          \<and> nextPageToScrape (snd doc) = this_nextPageToScrape this1" by blast
    from b Inr have b': "?b = Some (Inr this1, e1)" by simp
    from for_organization_state[OF b']
    have d: "this_date this1 = this_date this" "this_nextPageToScrape this1 = this_nextPageToScrape this"
      by simp_all
    have w: "written e' = written e @ (new1 @ new2)" using n1(1) n2(1) by simp
    have q: "\<forall>doc\<in>set (new1 @ new2). searchingDate (snd doc) = this_date this
          \<and> nextPageToScrape (snd doc) = this_nextPageToScrape this"
    proof
      fix doc assume "doc \<in> set (new1 @ new2)"
      then have "doc \<in> set new1 \<or> doc \<in> set new2" by simp
      then show "searchingDate (snd doc) = this_date this
          \<and> nextPageToScrape (snd doc) = this_nextPageToScrape this"
      proof
        assume "doc \<in> set new1"
        with n1(2) show ?thesis by (rule bspec)
      next
        assume "doc \<in> set new2"
        with n2(2) have "searchingDate (snd doc) = this_date this1
          \<and> nextPageToScrape (snd doc) = this_nextPageToScrape this1" by (rule bspec)
        then show ?thesis unfolding d .
      qed
    qed
    from w q show ?thesis by blast
  qed
qed

lemma loop_body_Inl:
  assumes "requestWrapper (page_request cfg this) default_retries e = Some (Inl err, e1)"
  shows "loop_body cfg this e = Some (Inl err, e1)"
  using assms by (simp add: loop_body_def)

lemma loop_body_page:
  assumes "requestWrapper (page_request cfg this) default_retries e = Some (Inr orgs, e1)"
    and "items orgs \<noteq> []"
  shows "loop_body cfg this e =
           (case for_items cfg (items orgs) this e1 of
              None \<Rightarrow> None
            | Some (Inl err, e2) \<Rightarrow> Some (Inl err, e2)
            | Some (Inr this2, e2) \<Rightarrow>
                (let this' = this2\<lparr>this_nextPageToScrape := this_nextPageToScrape this2 + 1\<rparr>
                 in Some (Inr this', saveToFile cfg this' e2)))"
  using assms by (simp add: loop_body_def)

lemma loop_body_cases:
  assumes "loop_body cfg this e = Some (res, e')"
  obtains (failed) err where "requestWrapper (page_request cfg this) default_retries e = Some (Inl err, e')"
      "res = Inl err"
    | (empty) orgs e1 where "requestWrapper (page_request cfg this) default_retries e = Some (Inr orgs, e1)"
      "items orgs = []"
      "res = Inr (this\<lparr>this_date := getPreviousWeek (this_date this), this_nextPageToScrape := 1\<rparr>)"
      "e' = e1\<lparr>written := written e @ [(resultLocation cfg,
                       \<lparr>nextPageToScrape = 1, searchingDate = getPreviousWeek (this_date this),
                        organizations = this_organizations this\<rparr>)]\<rparr>"
    | (aborted) orgs e1 err where "requestWrapper (page_request cfg this) default_retries e = Some (Inr orgs, e1)"
      "items orgs \<noteq> []" "for_items cfg (items orgs) this e1 = Some (Inl err, e')" "res = Inl err"
    | (page) orgs e1 this2 e2 where "requestWrapper (page_request cfg this) default_retries e = Some (Inr orgs, e1)"
      "items orgs \<noteq> []" "for_items cfg (items orgs) this e1 = Some (Inr this2, e2)"
      "res = Inr (this2\<lparr>this_nextPageToScrape := this_nextPageToScrape this2 + 1\<rparr>)"
      "e' = saveToFile cfg (this2\<lparr>this_nextPageToScrape := this_nextPageToScrape this2 + 1\<rparr>) e2"
proof -
  let ?rq = "requestWrapper (page_request cfg this) default_retries e"
  from assms obtain r1 e1 where rq: "?rq = Some (r1, e1)"
    by (cases ?rq) (auto simp: loop_body_def)
  show thesis
  proof (cases r1)
    case (Inl err)
    with rq have rq': "?rq = Some (Inl err, e1)" by simp
    from loop_body_Inl[OF rq'] assms have r: "res = Inl err" and "e1 = e'" by simp_all
    with rq' have "?rq = Some (Inl err, e')" by simp
    then show thesis using r by (rule failed)
  next
    case (Inr orgs)
    with rq have rq': "?rq = Some (Inr orgs, e1)" by simp
    show thesis
    proof (cases "items orgs = []")
      case True
      from loop_body_empty_page[OF rq' True] assms
      have r: "res = Inr (this\<lparr>this_date := getPreviousWeek (this_date this), this_nextPageToScrape := 1\<rparr>)"
        and w: "e' = e1\<lparr>written := written e @ [(resultLocation cfg,
                       \<lparr>nextPageToScrape = 1, searchingDate = getPreviousWeek (this_date this),
                        organizations = this_organizations this\<rparr>)]\<rparr>"
        by simp_all
      from rq' True r w show thesis by (rule empty)
    next
      case False
      note lb = loop_body_page[OF rq' False]
      let ?it = "for_items cfg (items orgs) this e1"
      have "?it \<noteq> None"
      proof
        assume "?it = None"
        with lb assms show False by simp
      qed
      then obtain r2 e2 where it: "?it = Some (r2, e2)" by (cases ?it) auto
      show thesis
      proof (cases r2)
        case (Inl err)
        with it have it': "?it = Some (Inl err, e2)" by simp
        have "loop_body cfg this e = Some (Inl err, e2)" unfolding lb it' by simp
        with assms have r: "res = Inl err" and "e2 = e'" by simp_all
        with it' have "?it = Some (Inl err, e')" by simp
        with rq' False show thesis using r by (rule aborted)
      next
        case (Inr this2)
        with it have it': "?it = Some (Inr this2, e2)" by simp
        have "loop_body cfg this e =
            Some (Inr (this2\<lparr>this_nextPageToScrape := this_nextPageToScrape this2 + 1\<rparr>),
                  saveToFile cfg (this2\<lparr>this_nextPageToScrape := this_nextPageToScrape this2 + 1\<rparr>) e2)"
          unfolding lb it' by (simp add: Let_def)
        with assms have r: "res = Inr (this2\<lparr>this_nextPageToScrape := this_nextPageToScrape this2 + 1\<rparr>)"
          and w: "e' = saveToFile cfg (this2\<lparr>this_nextPageToScrape := this_nextPageToScrape this2 + 1\<rparr>) e2"
          by simp_all
        from rq' False it' r w show thesis by (rule page)
      qed
    qed
  qed
qed

lemma loop_body_state:
  assumes "loop_body cfg this e = Some (Inr this', e')"
  shows "oldestOrgDate this' = oldestOrgDate this
       \<and> ((this_date this' = this_date this
             \<and> this_nextPageToScrape this' = this_nextPageToScrape this + 1)
          \<or> (this_date this' = getPreviousWeek (this_date this) \<and> this_nextPageToScrape this' = 1))"
  using assms
proof (cases rule: loop_body_cases)
  case (empty orgs e1)
  then show ?thesis by simp
next
  case (page orgs e1 this2 e2)
  with for_items_state[OF page(3)] show ?thesis by simp
qed simp_all

lemma loop_body_saved:
  assumes "loop_body cfg this e = Some (res, e')"
  shows "\<exists>new. written e' = written e @ new
           \<and> (\<forall>doc\<in>set new. searchingDate (snd doc) = this_date this
                  \<or> searchingDate (snd doc) = getPreviousWeek (this_date this))"
  using assms
proof (cases rule: loop_body_cases)
  case (failed err)
  from requestWrapper_frame[OF failed(1)] show ?thesis by simp
next
  case (empty orgs e1)
  then show ?thesis by simp
next
  case (aborted orgs e1 err)
  from for_items_saved[OF aborted(3)] requestWrapper_frame[OF aborted(1)] show ?thesis by auto
next
  case (page orgs e1 this2 e2)
  from for_items_saved[OF page(3)] requestWrapper_frame[OF page(1)]
  obtain new where n: "written e2 = written e @ new"
    "\<forall>doc\<in>set new. searchingDate (snd doc) = this_date this" by auto
  let ?doc = "(resultLocation cfg,
            \<lparr>nextPageToScrape = this_nextPageToScrape this2 + 1, searchingDate = this_date this,
             organizations = this_organizations this2\<rparr>)"
  from n page(5) for_items_state[OF page(3)]
  have "written e' = written e @ (new @ [?doc])" by simp
  moreover from n have "\<forall>doc\<in>set (new @ [?doc]). searchingDate (snd doc) = this_date this"
    by simp
  ultimately show ?thesis by blast
qed


lemma getPreviousWeek_parsed:
  "parse_date s = Some D \<Longrightarrow> getPreviousWeek s = format_date (subtract_week D)"
  by (simp add: getPreviousWeek_def)

lemma parse_format_subtract_week:
  assumes "valid_date D" and "parse_date (format_date (subtract_week D)) = Some D1"
  shows "D1 = subtract_week D"
  using assms parse_format_date[OF valid_subtract_week[OF assms(1)]]
  by (simp split: if_splits)

text \<open>
  Over a whole run the searching date is where it was, or a whole number of weeks earlier.
\<close>

lemma run_date_aux:
  assumes "while_loop cfg this e = Some y"
  shows "\<forall>fin. fst y = Inr fin \<longrightarrow>
           this_date fin = this_date this
         \<or> (\<exists>D D' k. parse_date (this_date this) = Some D \<and> valid_date D'
                \<and> this_date fin = format_date D' \<and> 0 < k \<and> day_number D' = day_number D - 7 * int k)"
proof (rule while_loop.raw_induct
    [where P = "\<lambda>cfg this e y. \<forall>fin. fst y = Inr fin \<longrightarrow>
           this_date fin = this_date this
         \<or> (\<exists>D D' k. parse_date (this_date this) = Some D \<and> valid_date D'
                \<and> this_date fin = format_date D' \<and> 0 < k \<and> day_number D' = day_number D - 7 * int k)",
      OF _ assms], goal_cases)
  case (1 rn cfg this e y)
  show ?case
  proof (cases "isAfter (this_date this) (oldestOrgDate this)")
    case False
    with 1(2) show ?thesis by auto
  next
    case True
    from isAfter_parses[OF True] obtain D where D: "parse_date (this_date this) = Some D" "valid_date D"
      by blast
    let ?b = "loop_body cfg this e"
    from 1(2) True obtain r1 e1 where b: "?b = Some (r1, e1)" by (cases ?b) auto
    show ?thesis
    proof (cases r1)
      case (Inl err)
      with 1(2) True b show ?thesis by auto
    next
      case (Inr this1)
      with b have b': "?b = Some (Inr this1, e1)" by simp
      with 1(2) True have rec: "rn cfg this1 e1 = Some y" by simp
      note ih = 1(1)[OF rec]
      show ?thesis
      proof (intro allI impI)
        fix fin assume f: "fst y = Inr fin"
        from ih f consider (same) "this_date fin = this_date this1"
          | (earlier) D1 D' k where "parse_date (this_date this1) = Some D1" "valid_date D'"
              "this_date fin = format_date D'" "0 < k" "day_number D' = day_number D1 - 7 * int k"
          by blast
        then show "this_date fin = this_date this
         \<or> (\<exists>D D' k. parse_date (this_date this) = Some D \<and> valid_date D'
                \<and> this_date fin = format_date D' \<and> 0 < k \<and> day_number D' = day_number D - 7 * int k)"
        proof cases
          case same
          from loop_body_state[OF b'] show ?thesis
          proof (elim conjE disjE)
            assume "this_date this1 = this_date this"
            with same show ?thesis by simp
          next
            assume "this_date this1 = getPreviousWeek (this_date this)"
            with same D have "this_date fin = format_date (subtract_week D)"
              by (simp add: getPreviousWeek_parsed)
            moreover have "day_number (subtract_week D) = day_number D - 7 * int 1"
              using day_number_subtract_week[OF D(2)] by simp
            moreover have "(0::nat) < 1" by simp
            ultimately show ?thesis using D valid_subtract_week[OF D(2)] by blast
          qed
        next
          case earlier
          from loop_body_state[OF b'] show ?thesis
          proof (elim conjE disjE)
            assume "this_date this1 = this_date this"
            with earlier D have "day_number D' = day_number D - 7 * int k" by simp
            with earlier D show ?thesis by blast
          next
            assume "this_date this1 = getPreviousWeek (this_date this)"
            with D have "this_date this1 = format_date (subtract_week D)"
              by (simp add: getPreviousWeek_parsed)
            with earlier(1) have "D1 = subtract_week D"
              using parse_format_subtract_week[OF D(2)] by simp
            with earlier(5) day_number_subtract_week[OF D(2)]
            have "day_number D' = day_number D - 7 * int (Suc k)" by simp
            moreover have "0 < Suc k" by simp
            ultimately show ?thesis using D earlier(2,3) by blast
          qed
        qed
      qed
    qed
  qed
qed

lemma run_date:
  assumes "while_loop cfg this e = Some (Inr fin, e')"
  shows "this_date fin = this_date this
         \<or> (\<exists>D D' k. parse_date (this_date this) = Some D \<and> valid_date D'
                \<and> this_date fin = format_date D' \<and> 0 < k \<and> day_number D' = day_number D - 7 * int k)"
  using run_date_aux[OF assms] by simp


text \<open>
  Claim C7. A pass through the loop body that ends normally either leaves the searching
  date as it is and moves the cursor one page on, or sets the date to the day seven days
  before and the cursor to 1. Every document saved during a pass, however it ends, carries
  the date from before the pass or the date seven days before it. Over a whole run the last
  searching date is the first one, or a date a positive number of weeks before it.
\<close>

theorem searching_date_never_moves_forward:
  "(isAfter (this_date this) (oldestOrgDate this) \<and> loop_body cfg this e = Some (Inr this', e') \<longrightarrow>
      (\<exists>D. parse_date (this_date this) = Some D
         \<and> ((this_date this' = this_date this
               \<and> this_nextPageToScrape this' = this_nextPageToScrape this + 1)
            \<or> (this_date this' = format_date (subtract_week D)
               \<and> day_number (subtract_week D) = day_number D - 7
               \<and> (next_day ^^ 7) (subtract_week D) = D
               \<and> this_nextPageToScrape this' = 1))))
   \<and> (isAfter (this_date this) (oldestOrgDate this) \<and> loop_body cfg this e = Some (res, e1) \<longrightarrow>
      (\<exists>D new. parse_date (this_date this) = Some D
         \<and> written e1 = written e @ new
         \<and> (\<forall>doc\<in>set new. searchingDate (snd doc) = this_date this
                \<or> searchingDate (snd doc) = format_date (subtract_week D))))
   \<and> (while_loop cfg this e = Some (Inr fin, e2) \<longrightarrow>
        this_date fin = this_date this
      \<or> (\<exists>D D' k. parse_date (this_date this) = Some D \<and> valid_date D'
             \<and> this_date fin = format_date D' \<and> 0 < k
             \<and> day_number D' = day_number D - 7 * int k))"
proof (intro conjI impI)
  assume a: "isAfter (this_date this) (oldestOrgDate this) \<and> loop_body cfg this e = Some (Inr this', e')"
  then obtain D where D: "parse_date (this_date this) = Some D" "valid_date D"
    using isAfter_parses by blast
  from a loop_body_state[of cfg this e this' e'] getPreviousWeek_parsed[OF D(1)]
    day_number_subtract_week[OF D(2)] subtract_week_seven_days[OF D(2)] D(1)
  show "\<exists>D. parse_date (this_date this) = Some D
         \<and> ((this_date this' = this_date this
               \<and> this_nextPageToScrape this' = this_nextPageToScrape this + 1)
            \<or> (this_date this' = format_date (subtract_week D)
               \<and> day_number (subtract_week D) = day_number D - 7
               \<and> (next_day ^^ 7) (subtract_week D) = D
               \<and> this_nextPageToScrape this' = 1))"
    by auto
next
  assume a: "isAfter (this_date this) (oldestOrgDate this) \<and> loop_body cfg this e = Some (res, e1)"
  then obtain D where D: "parse_date (this_date this) = Some D" "valid_date D"
    using isAfter_parses by blast
  from a loop_body_saved[of cfg this e res e1] obtain new where
    "written e1 = written e @ new"
    "\<forall>doc\<in>set new. searchingDate (snd doc) = this_date this
        \<or> searchingDate (snd doc) = getPreviousWeek (this_date this)" by blast
  with D(1) getPreviousWeek_parsed[OF D(1)]
  show "\<exists>D new. parse_date (this_date this) = Some D
         \<and> written e1 = written e @ new
         \<and> (\<forall>doc\<in>set new. searchingDate (snd doc) = this_date this
                \<or> searchingDate (snd doc) = format_date (subtract_week D))"
    by auto
next
  assume "while_loop cfg this e = Some (Inr fin, e2)"
  then show "this_date fin = this_date this
      \<or> (\<exists>D D' k. parse_date (this_date this) = Some D \<and> valid_date D'
             \<and> this_date fin = format_date D' \<and> 0 < k
             \<and> day_number D' = day_number D - 7 * int k)"
    by (rule run_date)
qed

lemmas date_eval = parse_date_def Let_def is_digit_def digits_val_def digit_val_def valid_date_def
  days_in_month_def is_leap_def isAfter_def parse_stamp_def valueOf_def day_number_def days_before_year_def
  days_before_month_def upt_rec getPreviousWeek_def format_date_def subtract_week_def zeroFill_def
  decimal.simps digit_char_def

lemmas crawl_eval = loop_body_def page_request_def for_organization_def saveToFile_def assemble_def
  sum_defs nullish_def with_events_def Repo.extend_def RepoWithEvents.fields_def
  Repo.defs RepoWithEvents.defs

lemma example_first_pass:
  "loop_body (example_config blocked) (example_scraper 1) start =
     Some (Inr \<lparr>this_nextPageToScrape = 2, this_date = ''2021-03-05'', this_organizations = [acme],
                totalCount = 2, oldestOrgDate = ''2021-03-01T00:00:00Z''\<rparr>,
           \<lparr>now = 0, calls = 7,
            written = [(''result.json'', \<lparr>nextPageToScrape = 1, searchingDate = ''2021-03-05'',
                                          organizations = [acme]\<rparr>),
                       (''result.json'', \<lparr>nextPageToScrape = 2, searchingDate = ''2021-03-05'',
                                          organizations = [acme]\<rparr>)]\<rparr>)"
  by (simp add: requestWrapper.simps crawl_eval date_eval example_defs world_defs governor_defs)


lemma example_isAfter:
  "isAfter (this_date (example_scraper p)) (oldestOrgDate (example_scraper p))"
  by (simp add: example_scraper_def date_eval)

text \<open>
  The first pass over the example directory: the date stays and the cursor moves from 1
  to 2.
\<close>

theorem searching_date_never_moves_forward_witness:
  "isAfter (this_date (example_scraper 1)) (oldestOrgDate (example_scraper 1))
   \<and> (\<exists>this' e'. loop_body (example_config blocked) (example_scraper 1) start = Some (Inr this', e')
        \<and> this_date this' = ''2021-03-05'' \<and> this_nextPageToScrape this' = 2
        \<and> (\<exists>D. parse_date (this_date (example_scraper 1)) = Some D
              \<and> ((this_date this' = this_date (example_scraper 1)
                    \<and> this_nextPageToScrape this' = this_nextPageToScrape (example_scraper 1) + 1)
                 \<or> (this_date this' = format_date (subtract_week D)
                    \<and> day_number (subtract_week D) = day_number D - 7
                    \<and> (next_day ^^ 7) (subtract_week D) = D
                    \<and> this_nextPageToScrape this' = 1))))"
  using searching_date_never_moves_forward[of "example_scraper 1" "example_config blocked" start,
      THEN conjunct1, rule_format, OF conjI, OF example_isAfter example_first_pass]
    example_isAfter[of 1] example_first_pass
  by simp

lemma for_rawRepos_step:
  assumes "requestWrapper (repos_events (octokit cfg) owner (repo_name repo)) default_retries e
             = Some (Inl err, e1)"
  shows "for_rawRepos cfg owner (repo # rawRepos) repos e =
           (if instanceof_RepoBlocked err
            then for_rawRepos cfg owner rawRepos (repos @ [with_events repo 0]) e1
            else Some (Inl err, e1))"
  using assms by simp

lemma for_rawRepos_result:
  "for_rawRepos cfg owner rawRepos repos e = Some (res, e') \<Longrightarrow>
     (\<forall>err. res = Inl err \<longrightarrow> \<not> instanceof_RepoBlocked err)
   \<and> (\<forall>out. res = Inr out \<longrightarrow>
         (\<exists>counts. length counts = length rawRepos \<and> out = repos @ map2 with_events rawRepos counts))"
proof (induction rawRepos arbitrary: repos e)
  case Nil
  then show ?case by auto
next
  case (Cons repo rawRepos)
  let ?rq = "requestWrapper (repos_events (octokit cfg) owner (repo_name repo)) default_retries e"
  from Cons.prems obtain r e1 where rq: "?rq = Some (r, e1)"
    by (cases ?rq) auto
  have ext: "\<And>n. (\<forall>err. res = Inl err \<longrightarrow> \<not> instanceof_RepoBlocked err)
       \<and> (\<forall>out. res = Inr out \<longrightarrow>
         (\<exists>counts. length counts = length rawRepos
            \<and> out = (repos @ [with_events repo n]) @ map2 with_events rawRepos counts))
     \<Longrightarrow> (\<forall>err. res = Inl err \<longrightarrow> \<not> instanceof_RepoBlocked err)
       \<and> (\<forall>out. res = Inr out \<longrightarrow>
         (\<exists>counts. length counts = length (repo # rawRepos)
            \<and> out = repos @ map2 with_events (repo # rawRepos) counts))"
  proof (intro conjI allI impI)
    fix n err
    assume "(\<forall>err. res = Inl err \<longrightarrow> \<not> instanceof_RepoBlocked err)
       \<and> (\<forall>out. res = Inr out \<longrightarrow>
         (\<exists>counts. length counts = length rawRepos
            \<and> out = (repos @ [with_events repo n]) @ map2 with_events rawRepos counts))"
      and "res = Inl err"
    then show "\<not> instanceof_RepoBlocked err" by blast
  next
    fix n out
    assume h: "(\<forall>err. res = Inl err \<longrightarrow> \<not> instanceof_RepoBlocked err)
       \<and> (\<forall>out. res = Inr out \<longrightarrow>
         (\<exists>counts. length counts = length rawRepos
            \<and> out = (repos @ [with_events repo n]) @ map2 with_events rawRepos counts))"
      and "res = Inr out"
    then obtain counts where c: "length counts = length rawRepos"
      "out = (repos @ [with_events repo n]) @ map2 with_events rawRepos counts" by blast
    have "length (n # counts) = length (repo # rawRepos)" using c(1) by simp
    moreover have "out = repos @ map2 with_events (repo # rawRepos) (n # counts)" using c(2) by simp
    ultimately show "\<exists>counts. length counts = length (repo # rawRepos)
            \<and> out = repos @ map2 with_events (repo # rawRepos) counts" by blast
  qed
  show ?case
  proof (cases r)
    case (Inr events)
    with Cons.prems rq
    have "for_rawRepos cfg owner rawRepos (repos @ [with_events repo (int (length events))]) e1 = Some (res, e')"
      by simp
    from ext[OF Cons.IH[OF this]] show ?thesis .
  next
    case (Inl err)
    show ?thesis
    proof (cases "instanceof_RepoBlocked err")
      case True
      with Cons.prems rq Inl
      have "for_rawRepos cfg owner rawRepos (repos @ [with_events repo 0]) e1 = Some (res, e')"
        by simp
      from ext[OF Cons.IH[OF this]] show ?thesis .
    next
      case False
      with Cons.prems rq Inl have "res = Inl err" by simp
      with False show ?thesis by simp
    qed
  qed
qed

lemma for_organization_enriched:
  assumes "\<not> list_ex (\<lambda>org. Organization.login org = item_login organization) (this_organizations this)"
    and "requestWrapper (users_repos (octokit cfg) (item_login organization)) default_retries e
           = Some (Inr rawRepos, e1)"
    and "rawRepos \<noteq> []"
    and "requestWrapper (users (octokit cfg) (item_login organization)) default_retries e1
           = Some (Inr publicUser, e2)"
  shows "for_organization cfg organization this e =
           (case for_rawRepos cfg (item_login organization) rawRepos [] e2 of
              None \<Rightarrow> None
            | Some (Inl err, e3) \<Rightarrow> Some (Inl err, e3)
            | Some (Inr repos, e3) \<Rightarrow>
                (let org = assemble publicUser repos;
                     this' = this\<lparr>this_organizations := this_organizations this @ [org]\<rparr>
                 in Some (Inr this', saveToFile cfg this' e3)))"
  using assms by (simp add: for_organization_def)

lemma for_organization_completed:
  assumes "\<not> list_ex (\<lambda>org. Organization.login org = item_login organization) (this_organizations this)"
    and "requestWrapper (users_repos (octokit cfg) (item_login organization)) default_retries e
           = Some (Inr rawRepos, e1)"
    and "rawRepos \<noteq> []"
    and "requestWrapper (users (octokit cfg) (item_login organization)) default_retries e1
           = Some (Inr publicUser, e2)"
    and "for_rawRepos cfg (item_login organization) rawRepos [] e2 = Some (Inr out, e3)"
  shows "for_organization cfg organization this e =
           Some (Inr (this\<lparr>this_organizations := this_organizations this @ [assemble publicUser out]\<rparr>),
                 e3\<lparr>written := written e @ [(resultLocation cfg,
                     \<lparr>nextPageToScrape = this_nextPageToScrape this, searchingDate = this_date this,
                      organizations = this_organizations this @ [assemble publicUser out]\<rparr>)]\<rparr>)"
proof -
  have "written e3 = written e"
    using requestWrapper_frame[OF assms(2)] requestWrapper_frame[OF assms(4)]
      for_rawRepos_written[OF assms(5)] by simp
  then show ?thesis
    unfolding for_organization_enriched[OF assms(1-4)] assms(5)
    by (simp add: Let_def saveToFile_def)
qed

lemma for_organization_aborted:
  assumes "\<not> list_ex (\<lambda>org. Organization.login org = item_login organization) (this_organizations this)"
    and "requestWrapper (users_repos (octokit cfg) (item_login organization)) default_retries e
           = Some (Inr rawRepos, e1)"
    and "rawRepos \<noteq> []"
    and "requestWrapper (users (octokit cfg) (item_login organization)) default_retries e1
           = Some (Inr publicUser, e2)"
    and "for_rawRepos cfg (item_login organization) rawRepos [] e2 = Some (Inl err, e3)"
  shows "for_organization cfg organization this e = Some (Inl err, e3)"
  unfolding for_organization_enriched[OF assms(1-4)] assms(5) by simp

lemma for_items_aborted:
  "for_organization cfg organization this e = Some (Inl err, e') \<Longrightarrow>
     for_items cfg (organization # rest) this e = Some (Inl err, e')"
  by simp

lemma run_aborted:
  assumes "isAfter (this_date this) (oldestOrgDate this)"
    and "requestWrapper (page_request cfg this) default_retries e = Some (Inr orgs, e1)"
    and "for_items cfg (items orgs) this e1 = Some (Inl err, e2)"
  shows "while_loop cfg this e = Some (Inl err, e2)"
proof -
  from assms(3) have "items orgs \<noteq> []" by auto
  from loop_body_page[OF assms(2) this] assms(3)
  have "loop_body cfg this e = Some (Inl err, e2)" by simp
  with assms(1) show ?thesis by (subst while_loop.simps) simp
qed


text \<open>
  Claim C3. In the loop over the repositories of one entity, when the event fetch for a
  repository fails with a \<open>RepoBlocked\<close> error the loop goes on with the rest, the
  repository recorded with 0 events; when it fails with any other error that error is the
  result of the loop. So a loop that ends normally has recorded every repository, in order,
  and a loop that ends in an error never ends in a \<open>RepoBlocked\<close>. When the loop ends
  normally the entity is assembled from its records, appended, and saved in one document;
  when it ends in an error, the error is the result for the candidate, for the page, and for
  the loop of \<open>run\<close>.
\<close>

theorem blocked_events_count_as_zero:
  "(requestWrapper (repos_events (octokit cfg) owner (repo_name repo)) default_retries e
       = Some (Inl err, e1) \<longrightarrow>
     for_rawRepos cfg owner (repo # rawRepos) repos e =
       (if instanceof_RepoBlocked err
        then for_rawRepos cfg owner rawRepos (repos @ [with_events repo 0]) e1
        else Some (Inl err, e1)))
   \<and> (for_rawRepos cfg owner rawRepos repos e = Some (res, e') \<longrightarrow>
        (\<forall>err. res = Inl err \<longrightarrow> \<not> instanceof_RepoBlocked err)
      \<and> (\<forall>out. res = Inr out \<longrightarrow>
            (\<exists>counts. length counts = length rawRepos
               \<and> out = repos @ map2 with_events rawRepos counts)))
   \<and> (\<not> list_ex (\<lambda>org. Organization.login org = item_login organization) (this_organizations this)
        \<and> requestWrapper (users_repos (octokit cfg) (item_login organization)) default_retries e
             = Some (Inr rawRepos, e1)
        \<and> rawRepos \<noteq> []
        \<and> requestWrapper (users (octokit cfg) (item_login organization)) default_retries e1
             = Some (Inr publicUser, e2) \<longrightarrow>
        (for_rawRepos cfg (item_login organization) rawRepos [] e2 = Some (Inr out, e3) \<longrightarrow>
           for_organization cfg organization this e =
             Some (Inr (this\<lparr>this_organizations := this_organizations this @ [assemble publicUser out]\<rparr>),
                   e3\<lparr>written := written e @ [(resultLocation cfg,
                       \<lparr>nextPageToScrape = this_nextPageToScrape this, searchingDate = this_date this,
                        organizations = this_organizations this @ [assemble publicUser out]\<rparr>)]\<rparr>))
      \<and> (for_rawRepos cfg (item_login organization) rawRepos [] e2 = Some (Inl err, e3) \<longrightarrow>
           for_organization cfg organization this e = Some (Inl err, e3)
         \<and> for_items cfg (organization # rest) this e = Some (Inl err, e3)))
   \<and> (isAfter (this_date this) (oldestOrgDate this)
        \<and> requestWrapper (page_request cfg this) default_retries e = Some (Inr orgs, e1)
        \<and> for_items cfg (items orgs) this e1 = Some (Inl err, e2) \<longrightarrow>
        while_loop cfg this e = Some (Inl err, e2))"
proof (intro conjI impI)
  assume "requestWrapper (repos_events (octokit cfg) owner (repo_name repo)) default_retries e
       = Some (Inl err, e1)"
  then show "for_rawRepos cfg owner (repo # rawRepos) repos e =
       (if instanceof_RepoBlocked err
        then for_rawRepos cfg owner rawRepos (repos @ [with_events repo 0]) e1
        else Some (Inl err, e1))"
    by (rule for_rawRepos_step)
next
  assume a: "for_rawRepos cfg owner rawRepos repos e = Some (res, e')"
  from for_rawRepos_result[OF a]
  show "\<forall>err. res = Inl err \<longrightarrow> \<not> instanceof_RepoBlocked err" by (rule conjunct1)
  from for_rawRepos_result[OF a]
  show "\<forall>out. res = Inr out \<longrightarrow>
            (\<exists>counts. length counts = length rawRepos
               \<and> out = repos @ map2 with_events rawRepos counts)" by (rule conjunct2)
next
  assume a: "\<not> list_ex (\<lambda>org. Organization.login org = item_login organization) (this_organizations this)
        \<and> requestWrapper (users_repos (octokit cfg) (item_login organization)) default_retries e
             = Some (Inr rawRepos, e1)
        \<and> rawRepos \<noteq> []
        \<and> requestWrapper (users (octokit cfg) (item_login organization)) default_retries e1
             = Some (Inr publicUser, e2)"
  then have a1: "\<not> list_ex (\<lambda>org. Organization.login org = item_login organization) (this_organizations this)"
    and a2: "requestWrapper (users_repos (octokit cfg) (item_login organization)) default_retries e
             = Some (Inr rawRepos, e1)"
    and a3: "rawRepos \<noteq> []"
    and a4: "requestWrapper (users (octokit cfg) (item_login organization)) default_retries e1
             = Some (Inr publicUser, e2)"
    by simp_all
  { assume "for_rawRepos cfg (item_login organization) rawRepos [] e2 = Some (Inr out, e3)"
    from for_organization_completed[OF a1 a2 a3 a4 this]
    show "for_organization cfg organization this e =
             Some (Inr (this\<lparr>this_organizations := this_organizations this @ [assemble publicUser out]\<rparr>),
                   e3\<lparr>written := written e @ [(resultLocation cfg,
                       \<lparr>nextPageToScrape = this_nextPageToScrape this, searchingDate = this_date this,
                        organizations = this_organizations this @ [assemble publicUser out]\<rparr>)]\<rparr>)" . }
  { assume b: "for_rawRepos cfg (item_login organization) rawRepos [] e2 = Some (Inl err, e3)"
    from for_organization_aborted[OF a1 a2 a3 a4 b]
    show c: "for_organization cfg organization this e = Some (Inl err, e3)" .
    from for_items_aborted[OF c]
    show "for_items cfg (organization # rest) this e = Some (Inl err, e3)" . }
next
  assume "isAfter (this_date this) (oldestOrgDate this)
        \<and> requestWrapper (page_request cfg this) default_retries e = Some (Inr orgs, e1)
        \<and> for_items cfg (items orgs) this e1 = Some (Inl err, e2)"
  then show "while_loop cfg this e = Some (Inl err, e2)"
    using run_aborted by blast
qed

lemma example_events_b:
  "requestWrapper (repos_events (octokit (example_config blocked)) ''acme'' ''b'') default_retries e
     = Some (Inl (RepoBlocked (Some ''dmca'')), called e)"
  by (simp add: requestWrapper.simps example_defs world_defs governor_defs)

text \<open>
  In the example directory the events of repository \<open>b\<close> are blocked: it is recorded
  with 0 events between \<open>a\<close> with 10 and \<open>c\<close> with 7. Where they fail with a
  server error instead, the run ends with that error after six calls and nothing saved.
\<close>

theorem blocked_events_count_as_zero_witness:
  "for_rawRepos (example_config blocked) ''acme'' (tl acme_repos) [with_events (hd acme_repos) 10] start
     = Some (Inr (map2 with_events acme_repos [10, 0, 7]), \<lparr>now = 0, calls = 2, written = []\<rparr>)
   \<and> while_loop (example_config server_error) (example_scraper 1) start
     = Some (Inl server_error, \<lparr>now = 0, calls = 6, written = []\<rparr>)"
proof -
  let ?a = "\<lparr>repo_name = ''a'', stargazers_count = Some 3, watchers_count = Some 1,
        forks_count = Some 0, open_issues_count = Some 4\<rparr>"
  let ?b = "\<lparr>repo_name = ''b'', stargazers_count = Some 0, watchers_count = Some 1,
        forks_count = Some 2, open_issues_count = Some 0\<rparr>"
  let ?c = "\<lparr>repo_name = ''c'', stargazers_count = Some 5, watchers_count = Some 1,
        forks_count = Some 0, open_issues_count = Some 0\<rparr>"
  have b: "requestWrapper (repos_events (octokit (example_config blocked)) ''acme'' (repo_name ?b))
             default_retries start = Some (Inl (RepoBlocked (Some ''dmca'')), called start)"
    using example_events_b[of start] by simp
  have "for_rawRepos (example_config blocked) ''acme'' (?b # [?c]) [with_events ?a 10] start
      = for_rawRepos (example_config blocked) ''acme'' [?c] ([with_events ?a 10] @ [with_events ?b 0]) (called start)"
    using blocked_events_count_as_zero[where cfg = "example_config blocked" and owner = "''acme''"
        and repo = ?b and e = start and err = "RepoBlocked (Some ''dmca'')" and ?e1.0 = "called start"
        and rawRepos = "[?c]" and repos = "[with_events ?a 10]",
        THEN conjunct1, rule_format, OF b]
    by simp
  also have "\<dots> = Some (Inr (map2 with_events acme_repos [10, 0, 7]), \<lparr>now = 0, calls = 2, written = []\<rparr>)"
    by (simp add: requestWrapper.simps example_defs world_defs governor_defs)
  finally have 1: "for_rawRepos (example_config blocked) ''acme'' (tl acme_repos) [with_events (hd acme_repos) 10] start
     = Some (Inr (map2 with_events acme_repos [10, 0, 7]), \<lparr>now = 0, calls = 2, written = []\<rparr>)"
    by (simp add: acme_repos_def)
  have p: "requestWrapper (page_request (example_config server_error) (example_scraper 1)) default_retries start
      = Some (Inr first_page, called start)"
    by (simp add: requestWrapper.simps page_request_def example_defs world_defs governor_defs)
  have f: "for_items (example_config server_error) (items first_page) (example_scraper 1) (called start)
      = Some (Inl server_error, \<lparr>now = 0, calls = 6, written = []\<rparr>)"
    by (simp add: requestWrapper.simps crawl_eval example_defs world_defs governor_defs)
  have 2: "while_loop (example_config server_error) (example_scraper 1) start
     = Some (Inl server_error, \<lparr>now = 0, calls = 6, written = []\<rparr>)"
    using blocked_events_count_as_zero[where cfg = "example_config server_error" and e = start
        and ?e1.0 = "called start" and this = "example_scraper 1" and orgs = first_page
        and err = server_error and ?e2.0 = "\<lparr>now = 0, calls = 6, written = []\<rparr>",
        THEN conjunct2, THEN conjunct2, THEN conjunct2, rule_format, OF conjI, OF example_isAfter conjI, OF p f] .
  from 1 2 show ?thesis by simp
qed
















end
